theory Spec2Isabelle
  imports Complex_Main "HOL-Library.Sublist" "HOL-Library.AList"
begin

section \<open>FandomScraper: a shallow embedding of \<^verbatim>\<open>src/scraper.ts\<close>\<close>

text \<open>
  The class \<^verbatim>\<open>FandomScraper\<close> walks the paginated character listing of a wiki, fetches
  the page of every listed character inside the requested window and extracts the fields
  of its infobox. The embedding is pure: the network, the URL parser and the modules of
  the repository that \<^verbatim>\<open>scraper.ts\<close> imports are parameters, a thrown exception is the
  left injection of a sum and the unbounded pagination loop is driven by fuel.
\<close>

subsection \<open>Strings\<close>

text \<open>
  Strings are lists of 8-bit characters, so a text with a code unit above 255 has no
  counterpart in the model. \<^verbatim>\<open>String.prototype.toLowerCase\<close> follows the Unicode tables
  of the runtime and is a parameter of the model (see the environment below). The DOM
  itself lowers the ASCII letters only, where it compares class names without regard to
  case:
\<close>

definition letterPairs :: "(char \<times> char) list" where
  "letterPairs = zip ''ABCDEFGHIJKLMNOPQRSTUVWXYZ'' ''abcdefghijklmnopqrstuvwxyz''"

definition lowerAscii :: "char \<Rightarrow> char" where
  "lowerAscii c = (case map_of letterPairs c of None \<Rightarrow> c | Some l \<Rightarrow> l)"

text \<open>\<^verbatim>\<open>s.includes(sub)\<close>: \<open>sub\<close> occurs in \<open>s\<close> as a contiguous block.\<close>

fun str_includes :: "string \<Rightarrow> string \<Rightarrow> bool" where
  "str_includes [] sub = (sub = [])"
| "str_includes (c # cs) sub = (prefix sub (c # cs) \<or> str_includes cs sub)"

definition isDigit :: "char \<Rightarrow> bool" where
  "isDigit c = (let n = (of_char c :: nat) in 48 \<le> n \<and> n \<le> 57)"

text \<open>
  \<^verbatim>\<open>parseInt(digits, 10)\<close> on a non-empty string of decimal digits. The result of the
  source is an IEEE double, so it is this natural number only up to
  \<^verbatim>\<open>Number.MAX_SAFE_INTEGER\<close>; the rounding above that bound is not modelled, and no
  theorem below is about such a number.
\<close>

definition parseInt :: "string \<Rightarrow> nat" where
  "parseInt ds = foldl (\<lambda>acc c. 10 * acc + ((of_char c :: nat) - 48)) 0 ds"

definition maxSafeInteger :: nat where
  "maxSafeInteger = 2 ^ 53 - 1"

text \<open>ASCII whitespace, on which the DOM splits a list of class names.\<close>

definition isSpace :: "char \<Rightarrow> bool" where
  "isSpace c = ((of_char c :: nat) \<in> {9, 10, 12, 13, 32})"

fun tokens :: "string \<Rightarrow> string list" where
  "tokens [] = []"
| "tokens (c # cs) =
     (if isSpace c then tokens cs
      else (case cs of
              [] \<Rightarrow> [[c]]
            | d # _ \<Rightarrow>
                if isSpace d then [c] # tokens cs
                else (case tokens cs of [] \<Rightarrow> [[c]] | t # ts \<Rightarrow> (c # t) # ts)))"

subsection \<open>The document tree (the part of the jsdom API the scraper uses)\<close>

text \<open>
  A parsed page. An element has a tag name, its attributes in source order and its child
  nodes; the only other nodes that matter are text nodes. A document has its root element
  and its mode: \<open>True\<close> is quirks mode, which jsdom gives a page without a doctype.
\<close>

datatype node = Element string "(string \<times> string) list" "node list" | Text string

datatype document = Document bool node

fun quirksMode :: "document \<Rightarrow> bool" where
  "quirksMode (Document quirks rootElement) = quirks"

text \<open>\<^verbatim>\<open>element.getAttribute(name)\<close>: \<open>None\<close> is \<^verbatim>\<open>null\<close>.\<close>

fun getAttribute :: "node \<Rightarrow> string \<Rightarrow> string option" where
  "getAttribute (Element tag attrs children) a = map_of attrs a"
| "getAttribute (Text s) a = None"

text \<open>\<^verbatim>\<open>node.textContent\<close>: the text of all descendants, in document order.\<close>

fun textContent :: "node \<Rightarrow> string" where
  "textContent (Text s) = s"
| "textContent (Element tag attrs children) = concat (map textContent children)"

text \<open>The elements of a subtree, its root included, in document order.\<close>

fun elementsOf :: "node \<Rightarrow> node list" where
  "elementsOf (Text s) = []"
| "elementsOf (Element tag attrs children) =
     Element tag attrs children # concat (map elementsOf children)"

fun descendants :: "node \<Rightarrow> node list" where
  "descendants (Text s) = []"
| "descendants (Element tag attrs children) = concat (map elementsOf children)"

fun documentElements :: "document \<Rightarrow> node list" where
  "documentElements (Document quirks rootElement) = elementsOf rootElement"

definition classList :: "node \<Rightarrow> string list" where
  "classList e = (case getAttribute e ''class'' of None \<Rightarrow> [] | Some v \<Rightarrow> tokens v)"

text \<open>
  An element matches a list of class names when the list has at least one name and the
  element carries all of them; in quirks mode the names are compared ASCII
  case-insensitively.
\<close>

definition hasClasses :: "bool \<Rightarrow> string \<Rightarrow> node \<Rightarrow> bool" where
  "hasClasses quirks names e =
     (tokens names \<noteq> []
      \<and> list_all (\<lambda>t. if quirks
                      then map lowerAscii t \<in> set (map (map lowerAscii) (classList e))
                      else t \<in> set (classList e))
           (tokens names))"

text \<open>
  \<^verbatim>\<open>document.getElementsByClassName\<close>, and \<^verbatim>\<open>element.getElementsByClassName\<close> for an
  element of a document with the given mode.
\<close>

definition getElementsByClassName :: "document \<Rightarrow> string \<Rightarrow> node list" where
  "getElementsByClassName page names =
     filter (hasClasses (quirksMode page) names) (documentElements page)"

definition getElementsByClassName_in :: "bool \<Rightarrow> node \<Rightarrow> string \<Rightarrow> node list" where
  "getElementsByClassName_in quirks e names = filter (hasClasses quirks names) (descendants e)"

fun tagName :: "node \<Rightarrow> string" where
  "tagName (Element tag attrs children) = tag"
| "tagName (Text s) = []"

definition getElementsByTagName :: "document \<Rightarrow> string \<Rightarrow> node list" where
  "getElementsByTagName page tag = filter (\<lambda>e. tagName e = tag) (documentElements page)"

subsection \<open>Errors\<close>

text \<open>
  Every \<^verbatim>\<open>throw new Error(msg)\<close> of the source is one of the first four constructors,
  named after the error taxonomy of the specification, with the message (or the URL) as
  its argument; \<open>TypeError\<close> and \<open>SyntaxError\<close> are raised by the runtime.
\<close>

datatype error =
    UnknownSiteError string
  | InvalidOptionsError string
  | MalformedEntryError string
  | FetchError string
  | TypeError string
  | SyntaxError string

subsection \<open>Interfaces and the environment\<close>

datatype pageFormat = Classic | Table1 | Table2

text \<open>
  \<^verbatim>\<open>ISchema\<close>. The data source is the object's own properties in enumeration order;
  a locator that is the empty string is falsy.
\<close>

record ISchema =
  s_url :: string
  pageFormat :: pageFormat
  charactersUrl :: string
  dataSource :: "(string \<times> string) list"

datatype language = EN | FR

text \<open>\<^verbatim>\<open>IConstructor\<close>: \<open>c_language = None\<close> is \<^verbatim>\<open>null\<close> or \<^verbatim>\<open>undefined\<close>.\<close>

record IConstructor =
  c_name :: string
  c_language :: "language option"

text \<open>
  \<^verbatim>\<open>IGetCharactersOptions\<close>. A \<^verbatim>\<open>number\<close> is a rational: every finite double is one, and
  the source only compares the two numbers, with each other and with counters. \<^verbatim>\<open>NaN\<close> and
  the infinities are not modelled. An omitted flag is \<open>False\<close>.
\<close>

record IGetCharactersOptions =
  limit :: rat
  offset :: rat
  recursive :: bool
  base64 :: bool
  withId :: bool

text \<open>A value of the extracted data: a cleaned string, or the list of images.\<close>

datatype field_value = StringValue string | ImageList "string list"

text \<open>
  \<^verbatim>\<open>IData\<close>, the output record. \<open>r_id = None\<close>: the object has no \<^verbatim>\<open>id\<close>;
  \<open>r_data = None\<close>: its \<^verbatim>\<open>data\<close> is \<^verbatim>\<open>undefined\<close>. The data object is an association
  list in insertion order.
\<close>

record IData =
  r_id :: "nat option"
  r_url :: string
  r_name :: string
  r_data :: "(string \<times> field_value) list option"

text \<open>\<^verbatim>\<open>allCharactersPage.classic\<close> of \<^verbatim>\<open>./utils/\<close>.\<close>

record classicPage =
  listCharactersElement_value :: string
  banList :: "string list"
  next_value :: string

text \<open>
  What \<^verbatim>\<open>scraper.ts\<close> takes from outside:
  \<^item> \<open>fetch\<close>: the global \<^verbatim>\<open>fetch\<close> followed by \<^verbatim>\<open>res.text()\<close> and the jsdom parse;
    \<open>None\<close> when the promise rejects;
  \<^item> \<open>fetchBase64\<close>: fetching an image and encoding its bytes, \<open>None\<close> when that throws;
  \<^item> \<open>URL_href\<close>: \<^verbatim>\<open>new URL(url, base).href\<close>, \<open>None\<close> when the constructor throws;
  \<^item> \<open>toLowerCase\<close>: \<^verbatim>\<open>String.prototype.toLowerCase\<close>;
  \<^item> \<open>selectorEngine\<close>: what \<^verbatim>\<open>querySelector\<close> answers for an attribute selector whose
    quoted value is not plain (see \<open>querySelector\<close> below);
  \<^item> \<open>allCharactersPage_classic\<close>, \<open>removeBrackets\<close> and \<open>Schemas\<close>: the imports from
    \<^verbatim>\<open>./utils/\<close>, \<^verbatim>\<open>./func/parsing\<close> and \<^verbatim>\<open>./schemas\<close>. The registry is looked up by
    its own keys only.
\<close>

record env =
  fetch :: "string \<Rightarrow> document option"
  fetchBase64 :: "string \<Rightarrow> string option"
  URL_href :: "string \<Rightarrow> string \<Rightarrow> string option"
  toLowerCase :: "string \<Rightarrow> string"
  selectorEngine :: "document \<Rightarrow> string \<Rightarrow> error + node option"
  allCharactersPage_classic :: classicPage
  removeBrackets :: "string \<Rightarrow> string"
  Schemas :: "string \<Rightarrow> (language \<Rightarrow> ISchema option) option"

text \<open>The instance: its private \<^verbatim>\<open>_schema\<close> (\<open>None\<close> is \<^verbatim>\<open>undefined\<close>).\<close>

record FandomScraper =
  priv_schema :: "ISchema option"

subsection \<open>The attribute selector\<close>

text \<open>
  \<^verbatim>\<open>page.querySelector(`[data-source="${sourceKey}"]`)\<close>. The locator is pasted into a
  quoted CSS string. When it is plain (no double quote, no backslash, no line break and no
  null character) the selector asks for the first element whose \<^verbatim>\<open>data-source\<close>
  attribute is the locator.
  Otherwise the quote may end early or an escape may be read, and the engine answers
  with an element, with nothing or with a \<^verbatim>\<open>SyntaxError\<close>: that answer is the
  \<open>selectorEngine\<close> of the environment.
\<close>

definition plainLocator :: "string \<Rightarrow> bool" where
  "plainLocator k = list_all (\<lambda>c. (of_char c :: nat) \<notin> {0, 10, 12, 13, 34, 92}) k"

definition dataSourceElement :: "document \<Rightarrow> string \<Rightarrow> node option" where
  "dataSourceElement page sourceKey =
     find (\<lambda>e. getAttribute e ''data-source'' = Some sourceKey) (documentElements page)"

definition querySelector :: "env \<Rightarrow> document \<Rightarrow> string \<Rightarrow> error + node option" where
  "querySelector E page sourceKey =
     (if plainLocator sourceKey then Inr (dataSourceElement page sourceKey)
      else selectorEngine E page sourceKey)"

subsection \<open>Construction\<close>

definition isValidConstructor :: "IConstructor \<Rightarrow> bool" where
  "isValidConstructor c = (c_name c \<noteq> [])"

definition constructor :: "env \<Rightarrow> IConstructor \<Rightarrow> error + FandomScraper" where
  "constructor E c =
     (if \<not> isValidConstructor c then Inl (UnknownSiteError (''Invalid wiki name: '' @ c_name c))
      else
        let language = (case c_language c of None \<Rightarrow> EN | Some l \<Rightarrow> l) in
        (case Schemas E (c_name c) of
           None \<Rightarrow> Inl (TypeError ''Cannot read properties of undefined'')
         | Some entry \<Rightarrow> Inr \<lparr>priv_schema = entry language\<rparr>))"

definition getSchema :: "FandomScraper \<Rightarrow> ISchema option" where
  "getSchema this = priv_schema this"

subsection \<open>Fetching\<close>

definition fetchPage :: "env \<Rightarrow> string \<Rightarrow> error + document" where
  "fetchPage E url =
     (case fetch E url of
        None \<Rightarrow> Inl (FetchError url)
      | Some page \<Rightarrow> Inr page)"

definition convertImageToBase64 :: "env \<Rightarrow> string \<Rightarrow> error + string" where
  "convertImageToBase64 E imageUrl =
     (case fetchBase64 E imageUrl of
        None \<Rightarrow> Inl (FetchError imageUrl)
      | Some base64Image \<Rightarrow> Inr base64Image)"

subsection \<open>The listing filter and the page id\<close>

definition filterBannedElement :: "env \<Rightarrow> node list \<Rightarrow> string list \<Rightarrow> node list" where
  "filterBannedElement E elements bans =
     filter (\<lambda>element.
        let innerText = toLowerCase E (textContent element)
        in \<not> list_ex (\<lambda>substring. str_includes innerText (toLowerCase E substring)) bans)
      elements"

text \<open>The literal part of the regular expression \<^verbatim>\<open>/"pageId":(\d+)/\<close>.\<close>

definition pageIdKey :: string where
  "pageIdKey = CHR 0x22 # ''pageId'' @ [CHR 0x22, CHR '':'']"

text \<open>
  \<^verbatim>\<open>scriptContent.match(regex)\<close>: the leftmost position where the key is followed by a
  digit; the group is the longest run of digits there. \<open>None\<close> is \<^verbatim>\<open>null\<close>.
\<close>

fun matchPageId :: "string \<Rightarrow> string option" where
  "matchPageId [] = None"
| "matchPageId (c # cs) =
     (if prefix pageIdKey (c # cs) \<and> takeWhile isDigit (drop (length pageIdKey) (c # cs)) \<noteq> []
      then Some (takeWhile isDigit (drop (length pageIdKey) (c # cs)))
      else matchPageId cs)"

definition extractPageId :: "string \<Rightarrow> nat" where
  "extractPageId scriptContent =
     (case matchPageId scriptContent of
        Some digits \<Rightarrow> parseInt digits
      | None \<Rightarrow> 0)"

subsection \<open>Field extraction\<close>

text \<open>The loop over the image elements, lines 241 to 254.\<close>

fun images_for :: "env \<Rightarrow> IGetCharactersOptions \<Rightarrow> node list \<Rightarrow> string list \<Rightarrow> error + string list" where
  "images_for E options [] images = Inr images"
| "images_for E options (element # rest) images =
     (case getAttribute element ''src'' of
        None \<Rightarrow> images_for E options rest images
      | Some src \<Rightarrow>
          if src = [] then images_for E options rest images
          else if base64 options then
            (case convertImageToBase64 E src of
               Inl err \<Rightarrow> Inl err
             | Inr b64 \<Rightarrow> images_for E options rest (images @ [b64]))
          else images_for E options rest (images @ [src]))"

text \<open>
  The general case, lines 258 to 275, for one key: the data after the iteration.
\<close>

definition dataValue :: "env \<Rightarrow> document \<Rightarrow> string \<Rightarrow> string \<Rightarrow> (string \<times> field_value) list
    \<Rightarrow> error + (string \<times> field_value) list" where
  "dataValue E page key sourceKey data =
     (case querySelector E page sourceKey of
        Inl err \<Rightarrow> Inl err
      | Inr None \<Rightarrow> Inr data
      | Inr (Some element) \<Rightarrow>
          (case getElementsByClassName_in (quirksMode page) element ''pi-data-value'' of
             [] \<Rightarrow> Inr data
           | valueElement # _ \<Rightarrow>
               let v = textContent valueElement in
               if v = [] then Inr data
               else Inr (AList.update key (StringValue (removeBrackets E v)) data)))"

text \<open>
  The loop \<^verbatim>\<open>for (const key in format)\<close> of \<^verbatim>\<open>parseCharacterPage\<close>. After the images
  are stored there is no \<^verbatim>\<open>continue\<close>: the general case runs for that key too.
\<close>

fun parseCharacterPage_for :: "env \<Rightarrow> document \<Rightarrow> IGetCharactersOptions \<Rightarrow> (string \<times> string) list
    \<Rightarrow> (string \<times> field_value) list \<Rightarrow> error + (string \<times> field_value) list" where
  "parseCharacterPage_for E page options [] data = Inr data"
| "parseCharacterPage_for E page options ((key, sourceKey) # rest) data =
     (if sourceKey = [] then parseCharacterPage_for E page options rest data
      else
        (case (if key = ''images''
               then (case images_for E options (getElementsByClassName page sourceKey) [] of
                       Inl err \<Rightarrow> Inl err
                     | Inr images \<Rightarrow> Inr (AList.update key (ImageList images) data))
               else Inr data) of
           Inl err \<Rightarrow> Inl err
         | Inr data1 \<Rightarrow>
             (case dataValue E page key sourceKey data1 of
                Inl err \<Rightarrow> Inl err
              | Inr data2 \<Rightarrow> parseCharacterPage_for E page options rest data2)))"

definition parseCharacterPage :: "env \<Rightarrow> ISchema \<Rightarrow> document \<Rightarrow> IGetCharactersOptions
    \<Rightarrow> error + (string \<times> field_value) list" where
  "parseCharacterPage E schema page options =
     parseCharacterPage_for E page options (dataSource schema) []"

subsection \<open>The classic listing walk\<close>

text \<open>
  The body of \<^verbatim>\<open>if (offset >= options.offset)\<close>, lines 171 to 196: the record that is
  pushed onto \<^verbatim>\<open>data\<close> for one listing element, or the error thrown on the way.
\<close>

definition actOnElement :: "env \<Rightarrow> ISchema \<Rightarrow> IGetCharactersOptions \<Rightarrow> node \<Rightarrow> error + IData" where
  "actOnElement E schema options element =
     (case getAttribute element ''href'' of
        None \<Rightarrow> Inl (MalformedEntryError ''No URL found'')
      | Some url \<Rightarrow>
          if url = [] then Inl (MalformedEntryError ''No URL found'')
          else
            let name = textContent element in
            if name = [] then Inl (MalformedEntryError ''No name found'')
            else
              (case URL_href E url (s_url schema) of
                 None \<Rightarrow> Inl (TypeError ''Invalid URL'')
               | Some href \<Rightarrow>
                   (case fetchPage E href of
                      Inl err \<Rightarrow> Inl err
                    | Inr characterPage \<Rightarrow>
                        (case (if recursive options
                               then parseCharacterPage E schema characterPage options
                               else Inr []) of
                           Inl err \<Rightarrow> Inl err
                         | Inr characterData \<Rightarrow>
                             let pushed =
                               (if withId options then
                                  let allScripts = getElementsByTagName characterPage ''script'';
                                      script = find (\<lambda>script. str_includes (textContent script) ''pageId'') allScripts;
                                      ident = extractPageId (case script of None \<Rightarrow> [] | Some sc \<Rightarrow> textContent sc)
                                  in \<lparr>r_id = Some ident, r_url = url, r_name = name, r_data = Some characterData\<rparr>
                                else \<lparr>r_id = None, r_url = url, r_name = name, r_data = Some characterData\<rparr>)
                             in Inr (if \<not> recursive options then pushed\<lparr>r_data := None\<rparr> else pushed)))))"

text \<open>
  How the \<^verbatim>\<open>for\<close> loop over the elements of one page ends: it ran through, with the
  new \<^verbatim>\<open>data\<close>, \<^verbatim>\<open>offset\<close> and \<^verbatim>\<open>count\<close>, or it returned \<^verbatim>\<open>data\<close> from the function.
\<close>

datatype flow = Continue "IData list" nat nat | Return "IData list"

fun for_elements :: "env \<Rightarrow> ISchema \<Rightarrow> IGetCharactersOptions \<Rightarrow> node list
    \<Rightarrow> IData list \<Rightarrow> nat \<Rightarrow> nat \<Rightarrow> error + flow" where
  "for_elements E schema options [] data offs count = Inr (Continue data offs count)"
| "for_elements E schema options (element # rest) data offs count =
     (if of_nat offs \<ge> offset options then
        (case actOnElement E schema options element of
           Inl err \<Rightarrow> Inl err
         | Inr pushed \<Rightarrow>
             if of_nat (count + 1) = limit options then Inr (Return (data @ [pushed]))
             else for_elements E schema options rest (data @ [pushed]) (offs + 1) (count + 1))
      else for_elements E schema options rest data (offs + 1) count)"

text \<open>
  The \<^verbatim>\<open>while (hasNext && count < options.limit)\<close> loop. Each test of the loop
  condition takes one unit of fuel; \<open>None\<close> means that the fuel ran out. The page is
  the instance's \<^verbatim>\<open>_CharactersPage\<close>.
\<close>

fun getAllClassic_while :: "nat \<Rightarrow> env \<Rightarrow> ISchema \<Rightarrow> IGetCharactersOptions \<Rightarrow> document
    \<Rightarrow> bool \<Rightarrow> IData list \<Rightarrow> nat \<Rightarrow> nat \<Rightarrow> (error + IData list) option" where
  "getAllClassic_while 0 E schema options page hasNext data offs count = None"
| "getAllClassic_while (Suc fuel) E schema options page hasNext data offs count =
     (if hasNext \<and> of_nat count < limit options then
        let elements = filterBannedElement E
              (getElementsByClassName page (listCharactersElement_value (allCharactersPage_classic E)))
              (banList (allCharactersPage_classic E))
        in
        (case for_elements E schema options elements data offs count of
           Inl err \<Rightarrow> Some (Inl err)
         | Inr (Return data') \<Rightarrow> Some (Inr data')
         | Inr (Continue data' offs' count') \<Rightarrow>
             (case getElementsByClassName page (next_value (allCharactersPage_classic E)) of
                [] \<Rightarrow> getAllClassic_while fuel E schema options page False data' offs' count'
              | nextElement # _ \<Rightarrow>
                  (case getAttribute nextElement ''href'' of
                     None \<Rightarrow> getAllClassic_while fuel E schema options page False data' offs' count'
                   | Some nextUrl \<Rightarrow>
                       if nextUrl = []
                       then getAllClassic_while fuel E schema options page False data' offs' count'
                       else
                         (case fetchPage E nextUrl of
                            Inl err \<Rightarrow> Some (Inl err)
                          | Inr page' \<Rightarrow>
                              getAllClassic_while fuel E schema options page' True data' offs' count'))))
      else Some (Inr data))"

definition getAllClassic :: "nat \<Rightarrow> env \<Rightarrow> ISchema \<Rightarrow> IGetCharactersOptions \<Rightarrow> (error + IData list) option" where
  "getAllClassic fuel E schema options =
     (case fetchPage E (charactersUrl schema) of
        Inl err \<Rightarrow> Some (Inl err)
      | Inr page \<Rightarrow> getAllClassic_while fuel E schema options page True [] 0 0)"

subsection \<open>The public entry point\<close>

definition defaultOptions :: IGetCharactersOptions where
  "defaultOptions = \<lparr>limit = 100000, offset = 0, recursive = False, base64 = True, withId = True\<rparr>"

text \<open>
  The \<^verbatim>\<open>try\<close> block of \<^verbatim>\<open>getAll\<close>: the error it throws, or what is returned; the
  unimplemented page formats fall through to the \<^verbatim>\<open>return []\<close> after the block.
\<close>

definition getAll_try :: "nat \<Rightarrow> env \<Rightarrow> FandomScraper \<Rightarrow> IGetCharactersOptions \<Rightarrow> (error + IData list) option" where
  "getAll_try fuel E this options =
     (if limit options < 1 then Some (Inl (InvalidOptionsError ''Limit must be greater than 0''))
      else if offset options < 0 then Some (Inl (InvalidOptionsError ''Offset must be greater than 0''))
      else if offset options > limit options then Some (Inl (InvalidOptionsError ''Offset must be less than limit''))
      else
        (case priv_schema this of
           None \<Rightarrow> Some (Inl (TypeError ''Cannot read properties of undefined''))
         | Some schema \<Rightarrow>
             if pageFormat schema = Classic then getAllClassic fuel E schema options
             else Some (Inr [])))"

text \<open>
  \<^verbatim>\<open>getAll\<close>: \<open>None\<close> as argument is the omitted parameter. The \<^verbatim>\<open>catch\<close> logs the error
  and the function returns the empty array. The result is \<open>Inl\<close> when the call fails,
  \<open>Inr\<close> when it returns, \<open>None\<close> when the fuel does not suffice.
\<close>

definition getAll :: "nat \<Rightarrow> env \<Rightarrow> FandomScraper \<Rightarrow> IGetCharactersOptions option \<Rightarrow> (error + IData list) option" where
  "getAll fuel E this arg =
     (let options = (case arg of None \<Rightarrow> defaultOptions | Some given \<Rightarrow> given) in
      case getAll_try fuel E this options of
        None \<Rightarrow> None
      | Some (Inl err) \<Rightarrow> Some (Inr [])
      | Some (Inr characters) \<Rightarrow> Some (Inr characters))"

section \<open>Notions used to state the properties\<close>

text \<open>The entries of one listing page that survive the ban list, in document order.\<close>

definition listingEntries :: "env \<Rightarrow> document \<Rightarrow> node list" where
  "listingEntries E page =
     filterBannedElement E
       (getElementsByClassName page (listCharactersElement_value (allCharactersPage_classic E)))
       (banList (allCharactersPage_classic E))"

text \<open>The filtered entries of a sequence of listing pages: pagination order, then document order.\<close>

definition allEntries :: "env \<Rightarrow> document list \<Rightarrow> node list" where
  "allEntries E pages = concat (map (listingEntries E) pages)"

text \<open>The address behind the pagination control of a page, if it has one.\<close>

definition nextPageUrl :: "env \<Rightarrow> document \<Rightarrow> string option" where
  "nextPageUrl E page =
     (case getElementsByClassName page (next_value (allCharactersPage_classic E)) of
        [] \<Rightarrow> None
      | nextElement # _ \<Rightarrow>
          (case getAttribute nextElement ''href'' of
             None \<Rightarrow> None
           | Some nextUrl \<Rightarrow> if nextUrl = [] then None else Some nextUrl))"

text \<open>Each page of the list is what the pagination control of the page before it leads to.\<close>

fun pageChain :: "env \<Rightarrow> document list \<Rightarrow> bool" where
  "pageChain E [] = True"
| "pageChain E [page] = True"
| "pageChain E (page # page' # pages) =
     (case nextPageUrl E page of
        None \<Rightarrow> False
      | Some u \<Rightarrow> fetch E u = Some page' \<and> pageChain E (page' # pages))"

text \<open>The listing is exhausted at a page without a usable pagination control.\<close>

definition exhausted :: "env \<Rightarrow> document list \<Rightarrow> bool" where
  "exhausted E pages = (pages \<noteq> [] \<and> pageChain E pages \<and> nextPageUrl E (last pages) = None)"

text \<open>Acting on a list of entries in order: the records, or the first error.\<close>

fun actOnAll :: "env \<Rightarrow> ISchema \<Rightarrow> IGetCharactersOptions \<Rightarrow> node list \<Rightarrow> error + IData list" where
  "actOnAll E schema options [] = Inr []"
| "actOnAll E schema options (element # rest) =
     (case actOnElement E schema options element of
        Inl err \<Rightarrow> Inl err
      | Inr pushed \<Rightarrow>
          (case actOnAll E schema options rest of
             Inl err \<Rightarrow> Inl err
           | Inr others \<Rightarrow> Inr (pushed # others)))"

text \<open>A number that is an integer.\<close>

definition isInteger :: "rat \<Rightarrow> bool" where
  "isInteger x = (of_int \<lfloor>x\<rfloor> = x)"

text \<open>Options that pass the checks of \<^verbatim>\<open>getAll\<close>.\<close>

definition validOptions :: "IGetCharactersOptions \<Rightarrow> bool" where
  "validOptions options = (1 \<le> limit options \<and> 0 \<le> offset options \<and> offset options \<le> limit options)"

text \<open>
  The entries inside the window of the options: the entries before the offset are
  skipped, and an integer limit cuts the rest. A limit that is not an integer cuts
  nothing, since the counter never equals it.
\<close>

definition window :: "IGetCharactersOptions \<Rightarrow> node list \<Rightarrow> node list" where
  "window options entries =
     (let rest = drop (nat \<lceil>offset options\<rceil>) entries
      in if isInteger (limit options) then take (nat \<lfloor>limit options\<rfloor>) rest else rest)"

text \<open>
  The same from the middle of a walk, with the counters at \<open>offs\<close> and \<open>count\<close>: how many
  entries are still skipped, after how many further records the counter equals the
  limit (\<open>None\<close>: never), and the entries that are acted on.
\<close>

definition toSkip :: "IGetCharactersOptions \<Rightarrow> nat \<Rightarrow> nat" where
  "toSkip options offs = nat (\<lceil>offset options\<rceil> - int offs)"

definition cap :: "IGetCharactersOptions \<Rightarrow> nat \<Rightarrow> nat option" where
  "cap options count =
     (if isInteger (limit options) \<and> of_nat count < limit options
      then Some (nat (\<lfloor>limit options\<rfloor> - int count)) else None)"

fun takeCap :: "nat option \<Rightarrow> 'a list \<Rightarrow> 'a list" where
  "takeCap None xs = xs"
| "takeCap (Some n) xs = take n xs"

fun capWithin :: "nat option \<Rightarrow> 'a list \<Rightarrow> bool" where
  "capWithin None xs = False"
| "capWithin (Some n) xs = (n \<le> length xs)"

text \<open>
  What a walk over the given pages ends with: the first error, the early return, the
  return at the exhausted listing, the failed fetch of the next page, or the return when
  the next page is there and the counter is no longer below the limit; \<open>None\<close> when the
  walk goes on behind the last of the pages.
\<close>

definition walkOutcome :: "env \<Rightarrow> ISchema \<Rightarrow> IGetCharactersOptions \<Rightarrow> document list
    \<Rightarrow> IData list \<Rightarrow> nat \<Rightarrow> nat \<Rightarrow> (error + IData list) option" where
  "walkOutcome E schema options pages data offs count =
     (case for_elements E schema options (allEntries E pages) data offs count of
        Inl err \<Rightarrow> Some (Inl err)
      | Inr (Return data') \<Rightarrow> Some (Inr data')
      | Inr (Continue data' offs' count') \<Rightarrow>
          (case nextPageUrl E (last pages) of
             None \<Rightarrow> Some (Inr data')
           | Some u \<Rightarrow>
               (case fetch E u of
                  None \<Rightarrow> Some (Inl (FetchError u))
                | Some page' \<Rightarrow> if of_nat count' < limit options then None else Some (Inr data'))))"

text \<open>
  Two characters are the same letter when they are equal or the upper-case and the
  lower-case form of one ASCII letter. An entry is banned when a block of its text is a
  banned string, letter for letter.
\<close>

definition sameLetter :: "char \<Rightarrow> char \<Rightarrow> bool" where
  "sameLetter c d = (c = d \<or> (c, d) \<in> set letterPairs \<or> (d, c) \<in> set letterPairs)"

definition banned :: "string list \<Rightarrow> node \<Rightarrow> bool" where
  "banned bans e =
     (\<exists>b \<in> set bans. \<exists>before block after.
        textContent e = before @ block @ after \<and> list_all2 sameLetter block b)"

text \<open>
  ASCII strings, and what the lower-casing of the runtime does on them: it lowers the
  letters \<open>A\<close> to \<open>Z\<close> and leaves the rest.
\<close>

definition isAscii :: "string \<Rightarrow> bool" where
  "isAscii s = list_all (\<lambda>c. (of_char c :: nat) < 128) s"

definition asciiLowering :: "env \<Rightarrow> bool" where
  "asciiLowering E = (\<forall>s. isAscii s \<longrightarrow> toLowerCase E s = map lowerAscii s)"

text \<open>An entry the walk cannot use: no address, or no name.\<close>

definition malformed :: "node \<Rightarrow> bool" where
  "malformed e = (getAttribute e ''href'' = None \<or> getAttribute e ''href'' = Some [] \<or> textContent e = [])"

text \<open>
  No element of the page offers a value for the locator of a text field: no element
  carries it as its data source, or the first that does has no data-value element inside,
  or that one has no text.
\<close>

definition noValue :: "document \<Rightarrow> string \<Rightarrow> bool" where
  "noValue page sourceKey =
     (case dataSourceElement page sourceKey of
        None \<Rightarrow> True
      | Some element \<Rightarrow>
          (case getElementsByClassName_in (quirksMode page) element ''pi-data-value'' of
             [] \<Rightarrow> True
           | valueElement # _ \<Rightarrow> textContent valueElement = []))"

text \<open>
  Two results of the extraction agree outside a key: the same error, or mappings with
  the same value under every other key.
\<close>

fun agreeOutside :: "string \<Rightarrow> error + (string \<times> field_value) list
    \<Rightarrow> error + (string \<times> field_value) list \<Rightarrow> bool" where
  "agreeOutside key (Inl err) (Inl err') = (err = err')"
| "agreeOutside key (Inr d) (Inr d') = (\<forall>k. k \<noteq> key \<longrightarrow> map_of d k = map_of d' k)"
| "agreeOutside key (Inl err) (Inr d') = False"
| "agreeOutside key (Inr d) (Inl err') = False"

section \<open>A small wiki to run the scraper on\<close>

text \<open>
  Two listing pages with five characters and one category header, a character page per
  entry, and the module constants of a classic Fandom category page. All pages have a
  doctype.
\<close>

definition memberLink :: "string \<Rightarrow> string \<Rightarrow> node" where
  "memberLink href txt =
     Element ''a'' [(''href'', href), (''class'', ''member'')] [Text txt]"

definition listing1 :: document where
  "listing1 = Document False (Element ''html'' [] [Element ''body'' []
     [memberLink ''Cat'' ''CATEGORY:Gods'', memberLink ''A'' ''Alice'',
      memberLink ''B'' ''Bob'', memberLink ''C'' ''Carol'',
      Element ''a'' [(''class'', ''next button''), (''href'', ''list2'')]
        [Text ''Next'']]])"

definition listing2 :: document where
  "listing2 = Document False (Element ''html'' [] [Element ''body'' []
     [memberLink ''D'' ''Dave'', memberLink ''E'' ''Eve'']])"

definition infobox :: "node" where
  "infobox = Element ''aside'' []
     [Element ''img'' [(''class'', ''thumb''), (''src'', ''a.png'')] [],
      Element ''img'' [(''class'', ''thumb'')] [],
      Element ''div'' [(''data-source'', ''age'')]
        [Element ''h3'' [] [Text ''Age''],
         Element ''div'' [(''class'', ''pi-data-value pi-font'')] [Text ''42[1]'']]]"

definition characterPage :: "string \<Rightarrow> document" where
  "characterPage n = Document False (Element ''html'' []
     [Element ''head'' []
        [Element ''script'' [] [Text ''var x;''],
         Element ''script'' [] [Text (''{'' @ pageIdKey @ n @ '',}'')]],
      Element ''body'' [] [infobox]])"

text \<open>A page whose first script mentions \<^verbatim>\<open>pageId\<close> without the pattern; the second has it.\<close>

definition alicePage :: document where
  "alicePage = Document False (Element ''html'' []
     [Element ''head'' []
        [Element ''script'' [] [Text ''var pageId;''],
         Element ''script'' [] [Text (''{'' @ pageIdKey @ ''117}'')]],
      Element ''body'' [] [infobox]])"

definition demoSchema :: ISchema where
  "demoSchema = \<lparr>s_url = ''w/'', pageFormat = Classic, charactersUrl = ''list'',
     dataSource = [(''age'', ''age''), (''kanji'', ''kanji''), (''images'', ''thumb'')]\<rparr>"

definition demoClassic :: classicPage where
  "demoClassic = \<lparr>listCharactersElement_value = ''member'',
     banList = [''Category:''], next_value = ''next''\<rparr>"

text \<open>
  The lower-casing of this environment lowers the ASCII letters; its selector engine
  is asked for one locator only, \<^verbatim>\<open>a"b\<close>, for which \<^verbatim>\<open>[data-source="a"b"]\<close> is no selector.
\<close>

definition demoEnv :: env where
  "demoEnv = \<lparr>
     fetch = map_of [(''list'', listing1), (''list2'', listing2), (''w/A'', alicePage),
       (''w/B'', characterPage ''204''), (''w/C'', characterPage ''1389''),
       (''w/D'', characterPage ''4410''), (''w/E'', characterPage ''57'')],
     fetchBase64 = (\<lambda>u. Some (''b64:'' @ u)),
     URL_href = (\<lambda>u b. Some (b @ u)),
     toLowerCase = map lowerAscii,
     selectorEngine = (\<lambda>page sourceKey. Inl (SyntaxError sourceKey)),
     allCharactersPage_classic = demoClassic,
     removeBrackets = takeWhile (\<lambda>c. c \<noteq> CHR ''[''),
     Schemas = map_of [(''demo'', (\<lambda>l. Some demoSchema))]\<rparr>"

definition demoScraper :: FandomScraper where
  "demoScraper = \<lparr>priv_schema = Some demoSchema\<rparr>"

definition demoOptions :: "rat \<Rightarrow> rat \<Rightarrow> bool \<Rightarrow> IGetCharactersOptions" where
  "demoOptions l k r = \<lparr>limit = l, offset = k, recursive = r, base64 = False, withId = True\<rparr>"

definition noIdOptions :: IGetCharactersOptions where
  "noIdOptions = \<lparr>limit = 1, offset = 0, recursive = False, base64 = False, withId = False\<rparr>"

text \<open>The records the scraper returns on this wiki, without and with the extracted data.\<close>

definition plainRecord :: "nat \<Rightarrow> string \<Rightarrow> string \<Rightarrow> IData" where
  "plainRecord n u nm = \<lparr>r_id = Some n, r_url = u, r_name = nm, r_data = None\<rparr>"

definition fullRecord :: "nat \<Rightarrow> string \<Rightarrow> string \<Rightarrow> IData" where
  "fullRecord n u nm = \<lparr>r_id = Some n, r_url = u, r_name = nm,
     r_data = Some [(''age'', StringValue ''42''), (''images'', ImageList [''a.png''])]\<rparr>"

text \<open>
  A listing that never ends (its pagination control leads back to the page itself) and
  whose third entry has no address.
\<close>

definition brokenListing :: document where
  "brokenListing = Document False (Element ''html'' [] [Element ''body'' []
     [memberLink ''B'' ''Bob'', memberLink ''C'' ''Carol'',
      Element ''a'' [(''class'', ''member'')] [Text ''Dave''],
      Element ''a'' [(''class'', ''next''), (''href'', ''list'')] [Text ''Next'']]])"

definition brokenEnv :: env where
  "brokenEnv = demoEnv\<lparr>fetch := map_of [(''list'', brokenListing),
       (''w/B'', characterPage ''204''), (''w/C'', characterPage ''1389'')]\<rparr>"

text \<open>A character page where an infobox row carries the class name of the images as its data source.\<close>

definition galleryPage :: document where
  "galleryPage = Document False (Element ''html'' [] [Element ''body'' []
     [Element ''img'' [(''class'', ''thumb''), (''src'', ''a.png'')] [],
      Element ''div'' [(''data-source'', ''thumb'')]
        [Element ''div'' [(''class'', ''pi-data-value'')] [Text ''Gallery'']]]])"

definition gallerySchema :: ISchema where
  "gallerySchema = demoSchema\<lparr>dataSource := [(''images'', ''thumb'')]\<rparr>"

definition emptyPage :: document where
  "emptyPage = Document False (Element ''html'' [] [Element ''body'' [] []])"

text \<open>A field map with a locator that holds a double quote: \<^verbatim>\<open>a"b\<close>.\<close>

definition quoteLocator :: string where
  "quoteLocator = [CHR ''a'', CHR 0x22, CHR ''b'']"

definition quoteSchema :: ISchema where
  "quoteSchema = demoSchema\<lparr>dataSource := [(''age'', ''age''), (''alias'', quoteLocator)]\<rparr>"

section \<open>The loops\<close>

subsection \<open>The loop over the elements of a page\<close>

lemma actOnAll_length: "actOnAll E s opts es = Inr rs \<Longrightarrow> length rs = length es"
  by (induction es arbitrary: rs) (auto split: sum.splits)

lemma actOnAll_append:
  "actOnAll E s opts (xs @ ys) =
     (case actOnAll E s opts xs of Inl err \<Rightarrow> Inl err
      | Inr rs \<Rightarrow> (case actOnAll E s opts ys of Inl err \<Rightarrow> Inl err | Inr rs' \<Rightarrow> Inr (rs @ rs')))"
  by (induction xs) (auto split: sum.splits)

lemma for_elements_append:
  "for_elements E s opts (xs @ ys) data offs count =
     (case for_elements E s opts xs data offs count of
        Inl err \<Rightarrow> Inl err
      | Inr (Return d) \<Rightarrow> Inr (Return d)
      | Inr (Continue d offs' count') \<Rightarrow> for_elements E s opts ys d offs' count')"
  by (induction xs arbitrary: data offs count) (auto split: sum.splits flow.splits)

lemma toSkip_acting: "(offset opts \<le> of_nat offs) = (toSkip opts offs = 0)"
proof -
  have "(offset opts \<le> of_int (int offs)) = (\<lceil>offset opts\<rceil> \<le> int offs)"
    by (simp only: ceiling_le_iff)
  then show ?thesis by (simp add: toSkip_def)
qed

lemma toSkip_Suc: "toSkip opts (Suc offs) = toSkip opts offs - 1"
  by (simp add: toSkip_def)

lemma toSkip_add: "toSkip opts (offs + n) = toSkip opts offs - n"
  by (simp add: toSkip_def)

lemma isInteger_of_nat: "isInteger (of_nat n)"
  by (simp add: isInteger_def)

lemma isInteger_obtain:
  assumes "isInteger x"
  obtains z where "x = of_int z"
  using assms unfolding isInteger_def by metis

lemma less_integer:
  assumes "isInteger x"
  shows "(of_nat n < x) = (int n < \<lfloor>x\<rfloor>)"
proof -
  from assms obtain z where "x = of_int z" by (rule isInteger_obtain)
  then show ?thesis using of_int_less_iff[of "int n" z, where ?'a = rat] by simp
qed

lemma eq_integer:
  assumes "isInteger x"
  shows "(of_nat n = x) = (int n = \<lfloor>x\<rfloor>)"
proof -
  from assms obtain z where "x = of_int z" by (rule isInteger_obtain)
  then show ?thesis using of_int_eq_iff[of "int n" z, where ?'a = rat] by simp
qed

lemma cap_Some: "cap opts count = Some L \<longleftrightarrow>
    isInteger (limit opts) \<and> int count < \<lfloor>limit opts\<rfloor> \<and> L = nat (\<lfloor>limit opts\<rfloor> - int count)"
  by (auto simp: cap_def less_integer)

lemma cap_None: "cap opts count = None \<longleftrightarrow> \<not> isInteger (limit opts) \<or> \<lfloor>limit opts\<rfloor> \<le> int count"
  by (auto simp: cap_def less_integer)

lemma cap_pos: "cap opts count = Some L \<Longrightarrow> 1 \<le> L"
  by (auto simp: cap_Some)

lemma cap_hit: "of_nat (count + 1) = limit opts \<Longrightarrow> cap opts count = Some 1"
proof -
  assume h: "of_nat (count + 1) = limit opts"
  then have i: "isInteger (limit opts)" using isInteger_of_nat[of "count + 1"] by simp
  with h have "int (count + 1) = \<lfloor>limit opts\<rfloor>" by (simp only: eq_integer)
  then show ?thesis using i by (auto simp: cap_Some)
qed

lemma cap_miss:
  assumes "of_nat (count + 1) \<noteq> limit opts"
  shows "cap opts (Suc count) = (case cap opts count of None \<Rightarrow> None | Some L \<Rightarrow> Some (L - 1))"
    and "cap opts count = Some L \<Longrightarrow> 2 \<le> L"
proof -
  have ne: "isInteger (limit opts) \<Longrightarrow> int (count + 1) \<noteq> \<lfloor>limit opts\<rfloor>"
    using assms by (simp only: eq_integer) simp
  show "cap opts (Suc count) = (case cap opts count of None \<Rightarrow> None | Some L \<Rightarrow> Some (L - 1))"
  proof (cases "cap opts count")
    case None
    then have "cap opts (Suc count) = None" by (auto simp: cap_None)
    then show ?thesis using None by simp
  next
    case (Some L)
    then have "cap opts (Suc count) = Some (L - 1)" using ne by (auto simp: cap_Some)
    then show ?thesis using Some by simp
  qed
  show "cap opts count = Some L \<Longrightarrow> 2 \<le> L" using ne by (auto simp: cap_Some)
qed

lemma for_elements_window:
  "for_elements E s opts es data offs count =
     (case actOnAll E s opts (takeCap (cap opts count) (drop (toSkip opts offs) es)) of
        Inl err \<Rightarrow> Inl err
      | Inr rs \<Rightarrow>
          if capWithin (cap opts count) (drop (toSkip opts offs) es)
          then Inr (Return (data @ rs))
          else Inr (Continue (data @ rs) (offs + length es) (count + length rs)))"
proof (induction es arbitrary: data offs count)
  case Nil
  show ?case
  proof (cases "cap opts count")
    case None
    then show ?thesis by simp
  next
    case (Some L)
    then show ?thesis using cap_pos[OF Some] by simp
  qed
next
  case (Cons e es)
  show ?case
  proof (cases "toSkip opts offs")
    case 0
    then have act: "offset opts \<le> of_nat offs" by (simp add: toSkip_acting)
    have D': "toSkip opts (offs + 1) = 0" using 0 by (simp add: toSkip_Suc)
    show ?thesis
    proof (cases "actOnElement E s opts e")
      case (Inl err)
      show ?thesis
      proof (cases "cap opts count")
        case None
        then show ?thesis using act 0 Inl by simp
      next
        case (Some L)
        then obtain L' where "L = Suc L'" using cap_pos[OF Some] by (cases L) auto
        then show ?thesis using act 0 Inl Some by simp
      qed
    next
      case (Inr r)
      show ?thesis
      proof (cases "of_nat (count + 1) = limit opts")
        case True
        then show ?thesis using act 0 Inr cap_hit[OF True] by simp
      next
        case False
        note ih = Cons.IH[of "data @ [r]" "offs + 1" "count + 1"]
        show ?thesis
        proof (cases "cap opts count")
          case None
          then have "cap opts (count + 1) = None" using cap_miss(1)[OF False] by simp
          then show ?thesis using act 0 Inr False None ih D'
            by (auto split: sum.splits)
        next
          case (Some L)
          then obtain L' where L: "L = Suc L'" "1 \<le> L'"
            using cap_miss(2)[OF False Some] by (cases L) auto
          then have "cap opts (count + 1) = Some L'" using cap_miss(1)[OF False] Some by simp
          then show ?thesis using act 0 Inr False Some L ih D'
            by (auto split: sum.splits)
        qed
      qed
    qed
  next
    case (Suc D)
    then have nact: "\<not> offset opts \<le> of_nat offs" by (simp add: toSkip_acting)
    have D': "toSkip opts (offs + 1) = D" using Suc by (simp add: toSkip_Suc)
    show ?thesis
      using nact Suc D' Cons.IH[of data "offs + 1" count]
      by (auto split: sum.splits)
  qed
qed

lemma for_elements_count:
  assumes "for_elements E s opts es data offs count = Inr (Continue d offs' count')"
    and "isInteger (limit opts)" and "of_nat count < limit opts"
  shows "of_nat count' < limit opts"
proof -
  obtain L where L: "cap opts count = Some L" using assms(2,3) by (simp add: cap_def)
  from assms(1) obtain rs where
    rs: "actOnAll E s opts (take L (drop (toSkip opts offs) es)) = Inr rs"
    and w: "\<not> L \<le> length (drop (toSkip opts offs) es)" and c: "count' = count + length rs"
    unfolding for_elements_window[of E s opts es data offs count] L
    by (auto split: sum.splits if_splits)
  have "length rs < L" using actOnAll_length[OF rs] w by simp
  then have "int count' < \<lfloor>limit opts\<rfloor>" using L c by (auto simp: cap_Some)
  then show ?thesis using assms(2) by (simp only: less_integer)
qed

subsection \<open>The loop over the pages\<close>

lemma while_step:
  "getAllClassic_while (Suc fuel) E s opts page hasNext data offs count =
     (if hasNext \<and> of_nat count < limit opts then
        (case for_elements E s opts (listingEntries E page) data offs count of
           Inl err \<Rightarrow> Some (Inl err)
         | Inr (Return d) \<Rightarrow> Some (Inr d)
         | Inr (Continue d offs' count') \<Rightarrow>
             (case nextPageUrl E page of
                None \<Rightarrow> getAllClassic_while fuel E s opts page False d offs' count'
              | Some u \<Rightarrow>
                  (case fetch E u of
                     None \<Rightarrow> Some (Inl (FetchError u))
                   | Some page' \<Rightarrow> getAllClassic_while fuel E s opts page' True d offs' count')))
      else Some (Inr data))"
  by (auto simp: listingEntries_def nextPageUrl_def fetchPage_def Let_def
      split: sum.splits flow.splits list.splits option.splits)

lemma while_stop:
  "\<not> (hasNext \<and> of_nat count < limit opts) \<Longrightarrow>
   getAllClassic_while fuel E s opts page hasNext data offs count = (if fuel = 0 then None else Some (Inr data))"
  by (cases fuel) auto

lemma allEntries_Cons: "allEntries E (page # pages) = listingEntries E page @ allEntries E pages"
  by (simp add: allEntries_def)

lemma walkOutcome_Cons:
  "walkOutcome E s opts (page # page' # pages) data offs count =
     (case for_elements E s opts (listingEntries E page) data offs count of
        Inl err \<Rightarrow> Some (Inl err)
      | Inr (Return d) \<Rightarrow> Some (Inr d)
      | Inr (Continue d offs' count') \<Rightarrow> walkOutcome E s opts (page' # pages) d offs' count')"
  by (auto simp: walkOutcome_def allEntries_Cons[of E page] for_elements_append
      split: sum.splits flow.splits)

lemma walkOutcome_single:
  "walkOutcome E s opts [page] data offs count =
     (case for_elements E s opts (listingEntries E page) data offs count of
        Inl err \<Rightarrow> Some (Inl err)
      | Inr (Return d) \<Rightarrow> Some (Inr d)
      | Inr (Continue d offs' count') \<Rightarrow>
          (case nextPageUrl E page of
             None \<Rightarrow> Some (Inr d)
           | Some u \<Rightarrow>
               (case fetch E u of
                  None \<Rightarrow> Some (Inl (FetchError u))
                | Some page' \<Rightarrow> if of_nat count' < limit opts then None else Some (Inr d))))"
  by (auto simp: walkOutcome_def allEntries_def split: sum.splits flow.splits)

lemma while_backward:
  "getAllClassic_while fuel E s opts page True data offs count = Some res \<Longrightarrow>
   of_nat count < limit opts \<Longrightarrow>
   \<exists>pages. pageChain E (page # pages) \<and> walkOutcome E s opts (page # pages) data offs count = Some res"
proof (induction fuel arbitrary: page data offs count)
  case 0
  then show ?case by simp
next
  case (Suc fuel)
  note run = Suc.prems(1)[unfolded while_step]
  let ?es = "listingEntries E page"
  have single: "walkOutcome E s opts [page] data offs count = Some res \<Longrightarrow> ?case"
    by (intro exI[of _ "[]"]) simp
  show ?case
  proof (cases "for_elements E s opts ?es data offs count")
    case (Inl err)
    then show ?thesis using run Suc.prems(2) by (intro single) (simp add: walkOutcome_single)
  next
    case (Inr fl)
    show ?thesis
    proof (cases fl)
      case (Return d)
      then show ?thesis using run Suc.prems(2) Inr by (intro single) (simp add: walkOutcome_single)
    next
      case (Continue d offs' count')
      show ?thesis
      proof (cases "nextPageUrl E page")
        case None
        then have "res = Inr d" using run Suc.prems(2) Inr Continue
          by (simp add: while_stop split: if_splits)
        then show ?thesis using Inr Continue None by (intro single) (simp add: walkOutcome_single)
      next
        case (Some u)
        show ?thesis
        proof (cases "fetch E u")
          case None
          then show ?thesis using run Suc.prems(2) Inr Continue Some
            by (intro single) (simp add: walkOutcome_single)
        next
          case page': (Some page')
          then have next_run: "getAllClassic_while fuel E s opts page' True d offs' count' = Some res"
            using run Suc.prems(2) Inr Continue Some by simp
          show ?thesis
          proof (cases "of_nat count' < limit opts")
            case False
            then have "res = Inr d" using next_run by (simp add: while_stop split: if_splits)
            then show ?thesis using Inr Continue Some page' False
              by (intro single) (simp add: walkOutcome_single)
          next
            case True
            from Suc.IH[OF next_run True] obtain pages where
              ch: "pageChain E (page' # pages)" and
              wo: "walkOutcome E s opts (page' # pages) d offs' count' = Some res" by blast
            have "pageChain E (page # page' # pages)" using ch Some page' by simp
            moreover have "walkOutcome E s opts (page # page' # pages) data offs count = Some res"
              using wo Inr Continue by (simp add: walkOutcome_Cons)
            ultimately show ?thesis by blast
          qed
        qed
      qed
    qed
  qed
qed

lemma while_forward:
  "pageChain E (page # pages) \<Longrightarrow> isInteger (limit opts) \<Longrightarrow> of_nat count < limit opts \<Longrightarrow>
   walkOutcome E s opts (page # pages) data offs count = Some res \<Longrightarrow>
   length pages + 2 \<le> fuel \<Longrightarrow>
   getAllClassic_while fuel E s opts page True data offs count = Some res"
proof (induction pages arbitrary: page data offs count fuel)
  case Nil
  then obtain f where f: "fuel = Suc f" "f \<noteq> 0" by (cases fuel) auto
  show ?case
  proof (cases "for_elements E s opts (listingEntries E page) data offs count")
    case (Inl err)
    then show ?thesis using Nil(3,4) f by (simp add: while_step walkOutcome_single del: getAllClassic_while.simps)
  next
    case (Inr fl)
    show ?thesis
    proof (cases fl)
      case (Return d)
      then show ?thesis using Nil(3,4) f Inr by (simp add: while_step walkOutcome_single del: getAllClassic_while.simps)
    next
      case (Continue d offs' count')
      have c': "of_nat count' < limit opts"
        using for_elements_count[OF Inr[unfolded Continue] Nil(2,3)] .
      show ?thesis using Nil(3,4) f Inr Continue c'
        by (auto simp: while_step walkOutcome_single while_stop simp del: getAllClassic_while.simps split: option.splits)
    qed
  qed
next
  case (Cons page' pages)
  then obtain f where f: "fuel = Suc f" "length pages + 2 \<le> f" by (cases fuel) auto
  from Cons.prems(1) obtain u where u: "nextPageUrl E page = Some u" "fetch E u = Some page'"
    and ch: "pageChain E (page' # pages)" by (auto split: option.splits)
  show ?case
  proof (cases "for_elements E s opts (listingEntries E page) data offs count")
    case (Inl err)
    then show ?thesis using Cons.prems(3,4) f by (simp add: while_step walkOutcome_Cons del: getAllClassic_while.simps)
  next
    case (Inr fl)
    show ?thesis
    proof (cases fl)
      case (Return d)
      then show ?thesis using Cons.prems(3,4) f Inr by (simp add: while_step walkOutcome_Cons del: getAllClassic_while.simps)
    next
      case (Continue d offs' count')
      have c': "of_nat count' < limit opts"
        using for_elements_count[OF Inr[unfolded Continue] Cons.prems(2,3)] .
      have wo: "walkOutcome E s opts (page' # pages) d offs' count' = Some res"
        using Cons.prems(4) Inr Continue by (simp add: walkOutcome_Cons)
      have "getAllClassic_while fuel E s opts page True data offs count =
            getAllClassic_while f E s opts page' True d offs' count'"
        using Cons.prems(3) Inr Continue u f by (simp add: while_step del: getAllClassic_while.simps)
      then show ?thesis using Cons.IH[OF ch Cons.prems(2) c' wo f(2)] by simp
    qed
  qed
qed

subsection \<open>The whole walk\<close>

lemma cap_start:
  "validOptions opts \<Longrightarrow>
   cap opts 0 = (if isInteger (limit opts) then Some (nat \<lfloor>limit opts\<rfloor>) else None)"
  by (simp add: cap_def validOptions_def)

lemma window_cap:
  "validOptions opts \<Longrightarrow> takeCap (cap opts 0) (drop (toSkip opts 0) es) = window opts es"
  by (simp add: cap_start window_def toSkip_def)

lemma start_below: "validOptions opts \<Longrightarrow> of_nat (0::nat) < limit opts"
  by (simp add: validOptions_def)

lemma walkOutcome_Inr:
  assumes "validOptions opts" and "walkOutcome E s opts pages [] 0 0 = Some (Inr rs)"
  shows "actOnAll E s opts (window opts (allEntries E pages)) = Inr rs
       \<and> (isInteger (limit opts) \<and> of_nat (length rs) < limit opts \<longrightarrow> nextPageUrl E (last pages) = None)"
proof -
  note w = for_elements_window[of E s opts "allEntries E pages" "[]" 0 0,
      unfolded window_cap[OF assms(1)]]
  show ?thesis
  proof (cases "actOnAll E s opts (window opts (allEntries E pages))")
    case (Inl err)
    then show ?thesis using assms(2) w by (simp add: walkOutcome_def)
  next
    case (Inr rs')
    have len: "length rs' = length (window opts (allEntries E pages))"
      using actOnAll_length[OF Inr] .
    show ?thesis
    proof (cases "capWithin (cap opts 0) (drop (toSkip opts 0) (allEntries E pages))")
      case True
      then have i: "isInteger (limit opts)"
        and L: "nat \<lfloor>limit opts\<rfloor> \<le> length (drop (nat \<lceil>offset opts\<rceil>) (allEntries E pages))"
        using assms(1) by (auto simp: cap_start toSkip_def split: if_splits)
      have "rs = rs'" using assms(2) w Inr True by (simp add: walkOutcome_def)
      moreover have "length rs' = nat \<lfloor>limit opts\<rfloor>" using len i L by (simp add: window_def)
      moreover have "0 \<le> \<lfloor>limit opts\<rfloor>" using assms(1) by (simp add: validOptions_def)
      ultimately have "int (length rs) = \<lfloor>limit opts\<rfloor>" by (simp only: int_nat_eq) simp
      then have "\<not> int (length rs) < \<lfloor>limit opts\<rfloor>" by simp
      then have "\<not> of_nat (length rs) < limit opts" unfolding less_integer[OF i] .
      then show ?thesis using Inr \<open>rs = rs'\<close> by simp
    next
      case False
      then show ?thesis using assms(2) w Inr
        by (auto simp: walkOutcome_def split: option.splits if_splits)
    qed
  qed
qed

lemma walkOutcome_limit_reached:
  assumes "validOptions opts" and "actOnAll E s opts (window opts (allEntries E pages)) = Inr rs"
    and "of_nat (length rs) = limit opts"
  shows "walkOutcome E s opts pages [] 0 0 = Some (Inr rs)"
proof -
  note w = for_elements_window[of E s opts "allEntries E pages" "[]" 0 0,
      unfolded window_cap[OF assms(1)]]
  have i: "isInteger (limit opts)" using assms(3) isInteger_of_nat[of "length rs"] by simp
  then have L: "int (length rs) = \<lfloor>limit opts\<rfloor>" using assms(3) by (simp only: eq_integer)
  have "length rs = length (take (nat \<lfloor>limit opts\<rfloor>) (drop (nat \<lceil>offset opts\<rceil>) (allEntries E pages)))"
    using actOnAll_length[OF assms(2)] i by (simp add: window_def)
  then have "nat \<lfloor>limit opts\<rfloor> \<le> length (drop (nat \<lceil>offset opts\<rceil>) (allEntries E pages))"
    using L by simp
  then have "capWithin (cap opts 0) (drop (toSkip opts 0) (allEntries E pages))"
    using i assms(1) by (simp add: cap_start toSkip_def)
  then show ?thesis using w assms(2) by (simp add: walkOutcome_def)
qed

lemma walkOutcome_exhausted:
  assumes "validOptions opts" and "actOnAll E s opts (window opts (allEntries E pages)) = Inr rs"
    and "nextPageUrl E (last pages) = None"
  shows "walkOutcome E s opts pages [] 0 0 = Some (Inr rs)"
proof -
  note w = for_elements_window[of E s opts "allEntries E pages" "[]" 0 0,
      unfolded window_cap[OF assms(1)]]
  show ?thesis using w assms(2,3) by (simp add: walkOutcome_def)
qed

lemma getAllClassic_backward:
  assumes "getAllClassic fuel E s opts = Some res" and "validOptions opts"
  shows "(fetch E (charactersUrl s) = None \<and> res = Inl (FetchError (charactersUrl s)))
       \<or> (\<exists>page pages. fetch E (charactersUrl s) = Some page \<and> pageChain E (page # pages)
            \<and> walkOutcome E s opts (page # pages) [] 0 0 = Some res)"
proof (cases "fetch E (charactersUrl s)")
  case None
  then show ?thesis using assms(1) by (simp add: getAllClassic_def fetchPage_def)
next
  case (Some page)
  then have "getAllClassic_while fuel E s opts page True [] 0 0 = Some res"
    using assms(1) by (simp add: getAllClassic_def fetchPage_def)
  from while_backward[OF this start_below[OF assms(2)]] obtain pages where
    "pageChain E (page # pages)" "walkOutcome E s opts (page # pages) [] 0 0 = Some res"
    by blast
  then show ?thesis using Some by blast
qed

lemma getAllClassic_forward:
  assumes "validOptions opts" and "isInteger (limit opts)" and "fetch E (charactersUrl s) = Some page"
    and "pageChain E (page # pages)"
    and "walkOutcome E s opts (page # pages) [] 0 0 = Some res"
    and "length pages + 2 \<le> fuel"
  shows "getAllClassic fuel E s opts = Some res"
  using while_forward[OF assms(4,2) start_below[OF assms(1)] assms(5,6)] assms(3)
  by (simp add: getAllClassic_def fetchPage_def)

lemma getAllClassic_Inr:
  assumes "getAllClassic fuel E s opts = Some (Inr rs)" and "validOptions opts"
  shows "\<exists>page pages. fetch E (charactersUrl s) = Some page \<and> pageChain E (page # pages)
          \<and> actOnAll E s opts (window opts (allEntries E (page # pages))) = Inr rs
          \<and> (isInteger (limit opts) \<and> of_nat (length rs) < limit opts
               \<longrightarrow> nextPageUrl E (last (page # pages)) = None)"
  using getAllClassic_backward[OF assms] walkOutcome_Inr[OF assms(2)] by blast

lemma getAll_valid_classic:
  assumes "validOptions opts" and "priv_schema this = Some s" and "pageFormat s = Classic"
  shows "getAll fuel E this (Some opts) =
     (case getAllClassic fuel E s opts of
        None \<Rightarrow> None | Some (Inl err) \<Rightarrow> Some (Inr []) | Some (Inr rs) \<Rightarrow> Some (Inr rs))"
  using assms by (simp add: getAll_def getAll_try_def validOptions_def)

lemma getAll_Inr:
  assumes "getAll fuel E this (Some opts) = Some (Inr rs)"
  shows "rs = [] \<or> (validOptions opts \<and> (\<exists>s. priv_schema this = Some s \<and> pageFormat s = Classic
            \<and> getAllClassic fuel E s opts = Some (Inr rs)))"
  using assms
  by (auto simp: getAll_def getAll_try_def validOptions_def split: if_splits option.splits sum.splits)

lemma getAll_never_throws: "getAll fuel E this arg \<noteq> Some (Inl err)"
  by (auto simp: getAll_def Let_def split: option.splits sum.splits)

lemma getAll_default: "getAll fuel E this None = getAll fuel E this (Some defaultOptions)"
  by (simp add: getAll_def)

lemma actOnAll_set:
  "actOnAll E s opts es = Inr rs \<Longrightarrow> r \<in> set rs \<Longrightarrow> \<exists>e \<in> set es. actOnElement E s opts e = Inr r"
  by (induction es arbitrary: rs) (auto split: sum.splits)

lemma actOnElement_entry:
  "actOnElement E s opts e = Inr r \<Longrightarrow> getAttribute e ''href'' = Some (r_url r) \<and> textContent e = r_name r"
  by (auto simp: actOnElement_def Let_def split: option.splits if_splits sum.splits)

lemma actOnAll_entries:
  "actOnAll E s opts es = Inr rs \<Longrightarrow>
   map (\<lambda>r. (Some (r_url r), r_name r)) rs = map (\<lambda>e. (getAttribute e ''href'', textContent e)) es"
  by (induction es arbitrary: rs) (auto split: sum.splits dest: actOnElement_entry)

lemma getAll_forward:
  assumes "validOptions opts" and "isInteger (limit opts)"
    and "priv_schema this = Some s" and "pageFormat s = Classic"
    and "fetch E (charactersUrl s) = Some page" and "pageChain E (page # pages)"
    and "walkOutcome E s opts (page # pages) [] 0 0 = Some res"
    and "length pages + 2 \<le> fuel"
  shows "getAll fuel E this (Some opts) = Some (Inr (case res of Inl err \<Rightarrow> [] | Inr rs \<Rightarrow> rs))"
  using getAllClassic_forward[OF assms(1,2,5,6,7,8)] getAll_valid_classic[OF assms(1,3,4), of fuel E]
  by (simp split: sum.splits)

lemma getAll_records:
  assumes "getAll fuel E this (Some opts) = Some (Inr rs)" and "r \<in> set rs"
  shows "\<exists>s e. priv_schema this = Some s \<and> actOnElement E s opts e = Inr r"
proof -
  from getAll_Inr[OF assms(1)] assms(2) obtain s where s: "priv_schema this = Some s"
    and v: "validOptions opts" and run: "getAllClassic fuel E s opts = Some (Inr rs)" by auto
  from getAllClassic_Inr[OF run v] obtain page pages where
    "actOnAll E s opts (window opts (allEntries E (page # pages))) = Inr rs" by blast
  from actOnAll_set[OF this assms(2)] s show ?thesis by blast
qed

lemma actOnElement_not_recursive:
  "actOnElement E s opts e = Inr r \<Longrightarrow> \<not> recursive opts \<Longrightarrow> r_data r = None"
  by (auto simp: actOnElement_def Let_def split: option.splits if_splits sum.splits)

lemma getAll_entries:
  assumes "getAll fuel E this (Some opts) = Some (Inr rs)"
  shows "rs = [] \<or> (\<exists>s page pages. priv_schema this = Some s \<and> fetch E (charactersUrl s) = Some page
          \<and> pageChain E (page # pages)
          \<and> map (\<lambda>r. (Some (r_url r), r_name r)) rs
              = map (\<lambda>e. (getAttribute e ''href'', textContent e)) (window opts (allEntries E (page # pages))))"
proof (cases "rs = []")
  case True
  then show ?thesis by simp
next
  case False
  with getAll_Inr[OF assms] obtain s where s: "priv_schema this = Some s"
    and v: "validOptions opts" and run: "getAllClassic fuel E s opts = Some (Inr rs)" by auto
  from getAllClassic_Inr[OF run v] obtain page pages where
    p: "fetch E (charactersUrl s) = Some page" "pageChain E (page # pages)"
    "actOnAll E s opts (window opts (allEntries E (page # pages))) = Inr rs" by blast
  from actOnAll_entries[OF p(3)] s p(1,2) show ?thesis by blast
qed

lemma actOnElement_malformed:
  "malformed e \<Longrightarrow> \<exists>msg. actOnElement E s opts e = Inl (MalformedEntryError msg)"
  by (auto simp: malformed_def actOnElement_def Let_def split: option.splits)

lemma actOnAll_error:
  assumes "actOnAll E s opts xs = Inr acc" and "actOnElement E s opts e = Inl err"
    and "\<And>L. c = Some L \<Longrightarrow> length xs < L"
  shows "actOnAll E s opts (takeCap c (xs @ e # post)) = Inl err"
proof (cases c)
  case None
  then show ?thesis using assms(1,2) by (simp add: actOnAll_append)
next
  case (Some L)
  then obtain k where "L - length xs = Suc k" using assms(3)[OF Some] by (cases "L - length xs") auto
  then show ?thesis using Some assms(1,2) assms(3)[OF Some] by (simp add: actOnAll_append)
qed

lemma cap_above:
  assumes "cap opts count = Some L" and "of_nat (count + n) < limit opts"
  shows "n < L"
proof -
  from assms(1) have i: "isInteger (limit opts)" and L: "L = nat (\<lfloor>limit opts\<rfloor> - int count)"
    by (simp_all add: cap_Some)
  from assms(2) i have "int (count + n) < \<lfloor>limit opts\<rfloor>" by (simp only: less_integer)
  then show ?thesis using L by simp
qed

lemma below_mono: "of_nat (count + n) < (x :: rat) \<Longrightarrow> m \<le> n \<Longrightarrow> of_nat (count + m) < x"
proof -
  assume a: "of_nat (count + n) < x" and b: "m \<le> n"
  have "(of_nat (count + m) :: rat) \<le> of_nat (count + n)" using b by simp
  then show ?thesis using a by simp
qed

lemma while_error:
  "pageChain E (page # pages) \<Longrightarrow> allEntries E (page # pages) = pre @ e # post \<Longrightarrow>
   toSkip opts offs \<le> length pre \<Longrightarrow>
   of_nat (count + (length pre - toSkip opts offs)) < limit opts \<Longrightarrow>
   actOnAll E s opts (drop (toSkip opts offs) pre) = Inr acc \<Longrightarrow>
   actOnElement E s opts e = Inl err \<Longrightarrow> length pages + 2 \<le> fuel \<Longrightarrow>
   getAllClassic_while fuel E s opts page True data offs count = Some (Inl err)"
proof (induction pages arbitrary: page pre data offs count fuel acc)
  case Nil
  then obtain f where f: "fuel = Suc f" by (cases fuel) auto
  have c: "of_nat count < limit opts" using below_mono[OF Nil(4), of 0] by simp
  have es: "listingEntries E page = pre @ e # post" using Nil(2) by (simp add: allEntries_def)
  have cp: "\<And>L. cap opts count = Some L \<Longrightarrow> length (drop (toSkip opts offs) pre) < L"
    using cap_above[OF _ Nil(4)] by simp
  have "for_elements E s opts (pre @ e # post) data offs count = Inl err"
    using for_elements_window[of E s opts "pre @ e # post" data offs count]
      actOnAll_error[OF Nil(5,6) cp, of "cap opts count" post] Nil(3) by simp
  then have "for_elements E s opts (listingEntries E page) data offs count = Inl err"
    by (simp only: es)
  then show ?case using f c by (simp add: while_step del: getAllClassic_while.simps)
next
  case (Cons page' pages)
  then obtain f where f: "fuel = Suc f" "length pages + 2 \<le> f" by (cases fuel) auto
  from Cons.prems(1) obtain u where u: "nextPageUrl E page = Some u" "fetch E u = Some page'"
    and ch: "pageChain E (page' # pages)" by (auto split: option.splits)
  have c: "of_nat count < limit opts" using below_mono[OF Cons.prems(4), of 0] by simp
  let ?es = "listingEntries E page"
  let ?D = "toSkip opts offs"
  have all: "?es @ allEntries E (page' # pages) = pre @ e # post"
    using Cons.prems(2) by (simp add: allEntries_Cons[of E page])
  show ?case
  proof (cases "length pre < length ?es")
    case True
    then obtain post' where es: "?es = pre @ e # post'"
      using all by (auto simp: append_eq_append_conv2 append_eq_Cons_conv)
    have cp: "\<And>L. cap opts count = Some L \<Longrightarrow> length (drop ?D pre) < L"
      using cap_above[OF _ Cons.prems(4)] by simp
    have "for_elements E s opts (pre @ e # post') data offs count = Inl err"
      using for_elements_window[of E s opts "pre @ e # post'" data offs count]
        actOnAll_error[OF Cons.prems(5,6) cp, of "cap opts count" post'] Cons.prems(3) by simp
    then have "for_elements E s opts ?es data offs count = Inl err"
      by (simp only: es)
    then show ?thesis using f c by (simp add: while_step del: getAllClassic_while.simps)
  next
    case False
    then obtain pre' where pre: "pre = ?es @ pre'"
      and rest: "allEntries E (page' # pages) = pre' @ e # post"
      using all by (auto simp: append_eq_append_conv2 append_eq_Cons_conv)
    from Cons.prems(5) obtain acc1 acc2 where
      a1: "actOnAll E s opts (drop ?D ?es) = Inr acc1" and
      a2: "actOnAll E s opts (drop (?D - length ?es) pre') = Inr acc2"
      by (auto simp: pre actOnAll_append split: sum.splits)
    have l1: "length acc1 = length ?es - ?D" using actOnAll_length[OF a1] by simp
    have le: "length ?es - ?D \<le> length pre - ?D" by (simp add: pre)
    have nocap: "\<And>L. cap opts count = Some L \<Longrightarrow> length (drop ?D ?es) < L"
      using cap_above[OF _ below_mono[OF Cons.prems(4) le]] by simp
    have tk: "takeCap (cap opts count) (drop ?D ?es) = drop ?D ?es"
      using nocap by (cases "cap opts count") auto
    have cw: "\<not> capWithin (cap opts count) (drop ?D ?es)"
      using nocap by (cases "cap opts count") auto
    have fe: "for_elements E s opts ?es data offs count
        = Inr (Continue (data @ acc1) (offs + length ?es) (count + length acc1))"
      using for_elements_window[of E s opts ?es data offs count] tk a1 cw by simp
    have step: "getAllClassic_while fuel E s opts page True data offs count
        = getAllClassic_while f E s opts page' True (data @ acc1) (offs + length ?es) (count + length acc1)"
      using f c fe u by (simp add: while_step del: getAllClassic_while.simps)
    have D': "toSkip opts (offs + length ?es) = ?D - length ?es" by (rule toSkip_add)
    have h3: "toSkip opts (offs + length ?es) \<le> length pre'"
      using Cons.prems(3) by (simp add: D' pre)
    have "count + length acc1 + (length pre' - toSkip opts (offs + length ?es))
        = count + (length pre - ?D)"
      using Cons.prems(3) by (simp add: D' pre l1)
    then have h4: "of_nat (count + length acc1 + (length pre' - toSkip opts (offs + length ?es))) < limit opts"
      using Cons.prems(4) by simp
    have h5: "actOnAll E s opts (drop (toSkip opts (offs + length ?es)) pre') = Inr acc2"
      using a2 by (simp add: D')
    from Cons.IH[OF ch rest h3 h4 h5 Cons.prems(6) f(2)] step show ?thesis by simp
  qed
qed

subsection \<open>The ban list, the page id and the fields\<close>

lemma str_includes_sublist: "str_includes s sub \<longleftrightarrow> sublist sub s"
  by (induction s) (auto simp: sublist_Cons_right)

lemma letterPairs_fst: "distinct (map fst letterPairs)"
  by (simp add: letterPairs_def)

lemma letterPairs_snd: "distinct (map snd letterPairs)"
  by (simp add: letterPairs_def)

lemma letterPairs_disjoint: "(c, d) \<in> set letterPairs \<Longrightarrow> (d, e) \<notin> set letterPairs"
  by (auto simp: letterPairs_def)

lemma letterPairs_lookup: "map_of letterPairs c = Some l \<longleftrightarrow> (c, l) \<in> set letterPairs"
  using letterPairs_fst by (rule map_of_eq_Some_iff)

lemma letterPairs_None: "map_of letterPairs c = None \<longleftrightarrow> (\<forall>l. (c, l) \<notin> set letterPairs)"
  by (metis letterPairs_lookup not_Some_eq)

lemma letterPairs_inj: "(c, l) \<in> set letterPairs \<Longrightarrow> (d, l) \<in> set letterPairs \<Longrightarrow> c = d"
proof -
  assume a: "(c, l) \<in> set letterPairs" "(d, l) \<in> set letterPairs"
  have "inj_on snd (set letterPairs)" using letterPairs_snd by (simp add: distinct_map)
  from inj_onD[OF this _ a] show ?thesis by simp
qed

lemma lowerAscii_upper: "(c, l) \<in> set letterPairs \<Longrightarrow> lowerAscii c = l"
  by (simp add: lowerAscii_def letterPairs_lookup[symmetric])

lemma lowerAscii_other: "\<forall>l. (c, l) \<notin> set letterPairs \<Longrightarrow> lowerAscii c = c"
  by (simp add: lowerAscii_def letterPairs_None[symmetric])

lemma letterPairs_fun: "(c, l) \<in> set letterPairs \<Longrightarrow> (c, l') \<in> set letterPairs \<Longrightarrow> l = l'"
  by (metis letterPairs_lookup option.inject)

lemma lowerAscii_same: "lowerAscii c = lowerAscii d \<longleftrightarrow> sameLetter c d"
proof (cases "\<exists>l. (c, l) \<in> set letterPairs")
  case True
  then obtain l where cl: "(c, l) \<in> set letterPairs" by blast
  have lc: "lowerAscii c = l" using cl by (rule lowerAscii_upper)
  show ?thesis
  proof (cases "\<exists>l'. (d, l') \<in> set letterPairs")
    case True
    then obtain l' where dl: "(d, l') \<in> set letterPairs" by blast
    have ld: "lowerAscii d = l'" using dl by (rule lowerAscii_upper)
    have "l = l' \<longleftrightarrow> c = d"
      using cl dl letterPairs_inj letterPairs_fun by blast
    moreover have "(c, d) \<notin> set letterPairs" using dl letterPairs_disjoint by blast
    moreover have "(d, c) \<notin> set letterPairs" using cl letterPairs_disjoint by blast
    ultimately show ?thesis by (simp add: lc ld sameLetter_def)
  next
    case False
    then have ld: "lowerAscii d = d" by (simp add: lowerAscii_other)
    have "l = d \<longleftrightarrow> (c, d) \<in> set letterPairs" using cl letterPairs_fun by blast
    moreover have "c \<noteq> d" using cl False by blast
    moreover have "(d, c) \<notin> set letterPairs" using False by blast
    ultimately show ?thesis by (simp add: lc ld sameLetter_def)
  qed
next
  case False
  then have lc: "lowerAscii c = c" by (simp add: lowerAscii_other)
  show ?thesis
  proof (cases "\<exists>l'. (d, l') \<in> set letterPairs")
    case True
    then obtain l' where dl: "(d, l') \<in> set letterPairs" by blast
    have ld: "lowerAscii d = l'" using dl by (rule lowerAscii_upper)
    have "c = l' \<longleftrightarrow> (d, c) \<in> set letterPairs" using dl letterPairs_fun by blast
    moreover have "c \<noteq> d" using dl False by blast
    moreover have "(c, d) \<notin> set letterPairs" using False by blast
    ultimately show ?thesis by (simp add: lc ld sameLetter_def)
  next
    case d: False
    then have ld: "lowerAscii d = d" by (simp add: lowerAscii_other)
    have "(c, d) \<notin> set letterPairs" "(d, c) \<notin> set letterPairs" using False d by blast+
    then show ?thesis by (simp add: lc ld sameLetter_def)
  qed
qed

lemma sublist_map_block:
  "sublist (map f b) (map f t) \<longleftrightarrow> (\<exists>before block after. t = before @ block @ after \<and> map f block = map f b)"
proof
  assume "sublist (map f b) (map f t)"
  then obtain ps ss where "map f t = ps @ map f b @ ss" by (auto simp: sublist_def)
  then obtain us vs where t1: "t = us @ vs" "ps = map f us" "map f b @ ss = map f vs"
    by (auto simp: map_eq_append_conv)
  from t1(3) obtain ms ws where "vs = ms @ ws" "map f b = map f ms" "ss = map f ws"
    by (metis append_eq_map_conv)
  then show "\<exists>before block after. t = before @ block @ after \<and> map f block = map f b"
    using t1(1) by metis
next
  assume "\<exists>before block after. t = before @ block @ after \<and> map f block = map f b"
  then obtain ps m ss where "t = ps @ m @ ss" "map f m = map f b" by blast
  then have "map f t = map f ps @ map f b @ map f ss" by simp
  then show "sublist (map f b) (map f t)" by (auto simp: sublist_def)
qed

lemma map_lower_same: "map lowerAscii m = map lowerAscii b \<longleftrightarrow> list_all2 sameLetter m b"
proof -
  have "map lowerAscii m = map lowerAscii b \<longleftrightarrow> list_all2 (\<lambda>c d. lowerAscii c = lowerAscii d) m b"
    by (auto simp: list_all2_conv_all_nth list_eq_iff_nth_eq)
  then show ?thesis by (simp add: lowerAscii_same)
qed

lemma banned_lowered:
  assumes "asciiLowering E" and "isAscii (textContent e)" and "list_all isAscii bans"
  shows "(\<exists>b \<in> set bans. sublist (toLowerCase E b) (toLowerCase E (textContent e))) \<longleftrightarrow> banned bans e"
proof -
  have t: "toLowerCase E (textContent e) = map lowerAscii (textContent e)"
    using assms(1,2) by (simp add: asciiLowering_def)
  have b: "\<And>b. b \<in> set bans \<Longrightarrow> toLowerCase E b = map lowerAscii b"
    using assms(1,3) by (simp add: asciiLowering_def list_all_iff)
  show ?thesis
    unfolding banned_def by (auto simp: t b sublist_map_block map_lower_same)
qed

lemma filterBannedElement_sublist:
  "filterBannedElement E elements bans =
     filter (\<lambda>e. \<not> (\<exists>b \<in> set bans. sublist (toLowerCase E b) (toLowerCase E (textContent e)))) elements"
  by (simp add: filterBannedElement_def list_ex_iff str_includes_sublist)

lemma filterBannedElement_banned:
  assumes "asciiLowering E" and "list_all (\<lambda>e. isAscii (textContent e)) elements" and "list_all isAscii bans"
  shows "filterBannedElement E elements bans = filter (\<lambda>e. \<not> banned bans e) elements"
  unfolding filterBannedElement_sublist
  using assms banned_lowered[OF assms(1) _ assms(3)]
  by (intro filter_cong) (auto simp: list_all_iff)

lemma allEntries_filtered:
  "allEntries E pages =
     concat (map (\<lambda>p. filterBannedElement E
                        (getElementsByClassName p (listCharactersElement_value (allCharactersPage_classic E)))
                        (banList (allCharactersPage_classic E)))
        pages)"
proof -
  have "listingEntries E = (\<lambda>p. filterBannedElement E
                        (getElementsByClassName p (listCharactersElement_value (allCharactersPage_classic E)))
                        (banList (allCharactersPage_classic E)))"
    by (rule ext) (simp add: listingEntries_def)
  then show ?thesis by (simp add: allEntries_def)
qed

lemma actOnElement_id:
  assumes "actOnElement E s opts e = Inr r" and "withId opts"
  shows "\<exists>href characterPage. URL_href E (r_url r) (s_url s) = Some href \<and> fetch E href = Some characterPage
            \<and> r_id r = Some (case find (\<lambda>sc. sublist ''pageId'' (textContent sc))
                                       (getElementsByTagName characterPage ''script'') of
                                None \<Rightarrow> 0 | Some sc \<Rightarrow> extractPageId (textContent sc))"
proof -
  have f: "(\<lambda>script. str_includes (textContent script) ''pageId'') = (\<lambda>sc. sublist ''pageId'' (textContent sc))"
    by (rule ext) (simp add: str_includes_sublist)
  have z: "extractPageId [] = 0" by (simp add: extractPageId_def)
  from assms obtain href characterPage where
    u: "URL_href E (r_url r) (s_url s) = Some href" "fetch E href = Some characterPage" and
    i: "r_id r = Some (extractPageId (case find (\<lambda>script. str_includes (textContent script) ''pageId'')
                                          (getElementsByTagName characterPage ''script'') of
                                     None \<Rightarrow> [] | Some sc \<Rightarrow> textContent sc))"
    by (auto simp: actOnElement_def Let_def fetchPage_def split: option.splits if_splits sum.splits)
  have "r_id r = Some (case find (\<lambda>sc. sublist ''pageId'' (textContent sc))
                                       (getElementsByTagName characterPage ''script'') of
                                None \<Rightarrow> 0 | Some sc \<Rightarrow> extractPageId (textContent sc))"
    using i z unfolding f by (simp split: option.splits)
  then show ?thesis using u by blast
qed

lemma parse_for_append:
  "parseCharacterPage_for E page opts (xs @ ys) data =
     (case parseCharacterPage_for E page opts xs data of
        Inl err \<Rightarrow> Inl err
      | Inr d \<Rightarrow> parseCharacterPage_for E page opts ys d)"
  by (induction xs arbitrary: data) (auto split: sum.splits)

lemma dataValue_noValue:
  "plainLocator sourceKey \<Longrightarrow> noValue page sourceKey \<Longrightarrow> dataValue E page key sourceKey data = Inr data"
  by (auto simp: noValue_def dataValue_def querySelector_def split: option.splits list.splits)

lemma dataValue_preserves:
  "dataValue E page key sourceKey data = Inr d \<Longrightarrow> k \<noteq> key \<Longrightarrow> map_of d k = map_of data k"
  by (auto simp: dataValue_def Let_def update_conv' split: sum.splits option.splits list.splits if_splits)

lemma parse_preserves:
  "parseCharacterPage_for E page opts fs data = Inr d \<Longrightarrow> k \<notin> fst ` set fs \<Longrightarrow>
   map_of d k = map_of data k"
proof (induction fs arbitrary: data)
  case Nil
  then show ?case by simp
next
  case (Cons f fs)
  obtain key sourceKey where f: "f = (key, sourceKey)" by (cases f)
  have k: "k \<noteq> key" "k \<notin> fst ` set fs" using Cons.prems(2) f by auto
  show ?case
  proof (cases "sourceKey = []")
    case True
    then show ?thesis using Cons f k by simp
  next
    case False
    define data1 where "data1 =
      (if key = ''images''
       then (case images_for E opts (getElementsByClassName page sourceKey) [] of
               Inl err \<Rightarrow> Inl err
             | Inr images \<Rightarrow> Inr (AList.update key (ImageList images) data))
       else Inr data)"
    from Cons.prems(1) f False obtain d1 where d1: "data1 = Inr d1"
      by (cases data1) (auto simp: data1_def)
    have k1: "map_of d1 k = map_of data k"
      using d1 k(1) by (auto simp: data1_def update_conv' split: if_splits sum.splits)
    from Cons.prems(1) f False d1 obtain d2 where
      d2: "dataValue E page key sourceKey d1 = Inr d2" and
      r: "parseCharacterPage_for E page opts fs d2 = Inr d"
      by (cases "dataValue E page key sourceKey d1") (auto simp: data1_def)
    from Cons.IH[OF r k(2)] dataValue_preserves[OF d2 k(1)] k1 show ?thesis by simp
  qed
qed

lemma agreeOutside_refl: "agreeOutside key r r"
  by (cases r) auto

lemma dataValue_agree:
  "\<forall>k. k \<noteq> K \<longrightarrow> map_of d1 k = map_of d2 k \<Longrightarrow>
   agreeOutside K (dataValue E page key sourceKey d1) (dataValue E page key sourceKey d2)"
  by (auto simp: dataValue_def Let_def update_conv' split: sum.splits option.splits list.splits)

lemma parse_agree:
  "\<forall>k. k \<noteq> K \<longrightarrow> map_of d1 k = map_of d2 k \<Longrightarrow>
   agreeOutside K (parseCharacterPage_for E page opts fs d1) (parseCharacterPage_for E page opts fs d2)"
proof (induction fs arbitrary: d1 d2)
  case Nil
  then show ?case by simp
next
  case (Cons f fs)
  obtain key sourceKey where f: "f = (key, sourceKey)" by (cases f)
  show ?case
  proof (cases "sourceKey = []")
    case True
    then show ?thesis using Cons f by simp
  next
    case False
    define step where "step = (\<lambda>data.
      (if key = ''images''
       then (case images_for E opts (getElementsByClassName page sourceKey) [] of
               Inl err \<Rightarrow> Inl err
             | Inr images \<Rightarrow> Inr (AList.update key (ImageList images) data))
       else Inr data))"
    have p: "\<And>data. parseCharacterPage_for E page opts (f # fs) data =
        (case step data of Inl err \<Rightarrow> Inl err
         | Inr data1 \<Rightarrow> (case dataValue E page key sourceKey data1 of Inl err \<Rightarrow> Inl err
              | Inr data2 \<Rightarrow> parseCharacterPage_for E page opts fs data2))"
      using f False by (simp add: step_def)
    have s: "agreeOutside K (step d1) (step d2)"
      using Cons.prems by (auto simp: step_def update_conv' split: sum.splits)
    show ?thesis
    proof (cases "step d1")
      case (Inl err)
      then show ?thesis using s by (cases "step d2") (auto simp: p)
    next
      case (Inr a1)
      then obtain a2 where a2: "step d2 = Inr a2" and a: "\<forall>k. k \<noteq> K \<longrightarrow> map_of a1 k = map_of a2 k"
        using s by (cases "step d2") auto
      note dv = dataValue_agree[OF a, of E page key sourceKey]
      show ?thesis
      proof (cases "dataValue E page key sourceKey a1")
        case (Inl err)
        then show ?thesis using dv Inr a2
          by (cases "dataValue E page key sourceKey a2") (auto simp: p)
      next
        case b1: (Inr b1)
        then obtain b2 where b2: "dataValue E page key sourceKey a2 = Inr b2"
          and b: "\<forall>k. k \<noteq> K \<longrightarrow> map_of b1 k = map_of b2 k"
          using dv by (cases "dataValue E page key sourceKey a2") auto
        from Cons.IH[OF b] show ?thesis using Inr a2 b1 b2 by (simp add: p)
      qed
    qed
  qed
qed

lemma actOnElement_no_id:
  "actOnElement E s opts e = Inr r \<Longrightarrow> \<not> withId opts \<Longrightarrow> r_id r = None"
  by (auto simp: actOnElement_def Let_def split: option.splits if_splits sum.splits)

lemma length_window:
  assumes "validOptions opts" and "isInteger (limit opts)"
  shows "of_nat (length (window opts es)) \<le> limit opts"
proof -
  have p: "1 \<le> \<lfloor>limit opts\<rfloor>" using assms(1) by (simp add: validOptions_def le_floor_iff)
  have "length (window opts es) \<le> nat \<lfloor>limit opts\<rfloor>" using assms(2) by (simp add: window_def)
  then have "int (length (window opts es)) \<le> \<lfloor>limit opts\<rfloor>" using p by linarith
  then have "(of_int (int (length (window opts es))) :: rat) \<le> of_int \<lfloor>limit opts\<rfloor>"
    by (simp only: of_int_le_iff)
  also have "\<dots> \<le> limit opts" by (rule of_int_floor_le)
  finally show ?thesis by simp
qed

lemma parse_step:
  assumes "dataSource s = before @ (key, sourceKey) # after" and "plainLocator sourceKey"
    and "noValue page sourceKey"
    and "key \<noteq> ''images'' \<or> getElementsByClassName page sourceKey = []"
  shows "parseCharacterPage E s page opts =
     (case parseCharacterPage_for E page opts before [] of
        Inl err \<Rightarrow> Inl err
      | Inr d0 \<Rightarrow> parseCharacterPage_for E page opts after
                   (if key = ''images'' \<and> sourceKey \<noteq> [] then AList.update key (ImageList []) d0 else d0))"
  using assms
  by (auto simp: parseCharacterPage_def parse_for_append dataValue_noValue split: sum.splits)

section \<open>The small wiki, evaluated\<close>

lemmas demo_defs = demoEnv_def demoClassic_def demoSchema_def demoScraper_def demoOptions_def
  listing1_def listing2_def memberLink_def characterPage_def alicePage_def infobox_def
  brokenEnv_def brokenListing_def plainRecord_def fullRecord_def

lemmas dom_defs = getElementsByClassName_def getElementsByClassName_in_def getElementsByTagName_def
  hasClasses_def classList_def isSpace_def querySelector_def dataSourceElement_def plainLocator_def

lemmas act_defs = actOnElement_def fetchPage_def parseCharacterPage_def dataValue_def
  extractPageId_def pageIdKey_def parseInt_def isDigit_def

lemmas filter_defs = listingEntries_def filterBannedElement_def lowerAscii_def letterPairs_def

lemma demo_entries1:
  "listingEntries demoEnv listing1 = [memberLink ''A'' ''Alice'', memberLink ''B'' ''Bob'', memberLink ''C'' ''Carol'']"
  by (simp add: filter_defs demo_defs dom_defs)

lemma demo_entries2:
  "listingEntries demoEnv listing2 = [memberLink ''D'' ''Dave'', memberLink ''E'' ''Eve'']"
  by (simp add: filter_defs demo_defs dom_defs)

lemma demo_all_entries:
  "allEntries demoEnv [listing1, listing2] =
     [memberLink ''A'' ''Alice'', memberLink ''B'' ''Bob'', memberLink ''C'' ''Carol'',
      memberLink ''D'' ''Dave'', memberLink ''E'' ''Eve'']"
  by (simp add: allEntries_def demo_entries1 demo_entries2)

lemma demo_next1: "nextPageUrl demoEnv listing1 = Some ''list2''"
  by (simp add: nextPageUrl_def demo_defs dom_defs)

lemma demo_next2: "nextPageUrl demoEnv listing2 = None"
  by (simp add: nextPageUrl_def demo_defs dom_defs)

lemma demo_fetch: "fetch demoEnv (charactersUrl demoSchema) = Some listing1" "fetch demoEnv ''list2'' = Some listing2"
  by (simp_all add: demoEnv_def demoSchema_def)

lemma demo_schema: "priv_schema demoScraper = Some demoSchema" "pageFormat demoSchema = Classic"
  by (simp_all add: demoScraper_def demoSchema_def)

lemma demo_act_full:
  "actOnElement demoEnv demoSchema (demoOptions l k True) (memberLink ''B'' ''Bob'') = Inr (fullRecord 204 ''B'' ''Bob'')"
  "actOnElement demoEnv demoSchema (demoOptions l k True) (memberLink ''C'' ''Carol'') = Inr (fullRecord 1389 ''C'' ''Carol'')"
  by (simp_all add: act_defs demo_defs dom_defs)

lemma demo_act_plain:
  "actOnElement demoEnv demoSchema (demoOptions l k False) (memberLink ''A'' ''Alice'') = Inr (plainRecord 0 ''A'' ''Alice'')"
  "actOnElement demoEnv demoSchema (demoOptions l k False) (memberLink ''B'' ''Bob'') = Inr (plainRecord 204 ''B'' ''Bob'')"
  "actOnElement demoEnv demoSchema (demoOptions l k False) (memberLink ''C'' ''Carol'') = Inr (plainRecord 1389 ''C'' ''Carol'')"
  "actOnElement demoEnv demoSchema (demoOptions l k False) (memberLink ''D'' ''Dave'') = Inr (plainRecord 4410 ''D'' ''Dave'')"
  "actOnElement demoEnv demoSchema (demoOptions l k False) (memberLink ''E'' ''Eve'') = Inr (plainRecord 57 ''E'' ''Eve'')"
  by (simp_all add: act_defs demo_defs dom_defs)

lemma demo_valid: "validOptions (demoOptions 2 1 r)" "validOptions (demoOptions 10 0 r)"
  "validOptions (demoOptions 1 0 r)" "validOptions (demoOptions 5 0 r)" "validOptions (demoOptions (3 / 2) 0 r)"
  by (simp_all add: validOptions_def demoOptions_def)

lemma demo_integer: "isInteger (limit (demoOptions 2 1 r))" "isInteger (limit (demoOptions 10 0 r))"
  "isInteger (limit (demoOptions 1 0 r))" "isInteger (limit (demoOptions 5 0 r))"
  by (simp_all add: isInteger_def demoOptions_def)

lemma demo_fraction: "\<not> isInteger (limit (demoOptions (3 / 2) 0 r))"
proof -
  have "\<lfloor>(3 :: rat) / 2\<rfloor> = 1" by (rule floor_unique) simp_all
  then show ?thesis by (simp add: isInteger_def demoOptions_def)
qed

lemma demo_window_full:
  "actOnAll demoEnv demoSchema (demoOptions 2 1 True)
     (window (demoOptions 2 1 True) (allEntries demoEnv [listing1, listing2]))
   = Inr [fullRecord 204 ''B'' ''Bob'', fullRecord 1389 ''C'' ''Carol'']"
  using demo_integer(1)[of True]
  by (simp add: demo_all_entries window_def demo_act_full) (simp add: demoOptions_def demo_act_full[unfolded demoOptions_def])

lemma demo_window_full1:
  "actOnAll demoEnv demoSchema (demoOptions 2 1 True)
     (window (demoOptions 2 1 True) (allEntries demoEnv [listing1]))
   = Inr [fullRecord 204 ''B'' ''Bob'', fullRecord 1389 ''C'' ''Carol'']"
  using demo_integer(1)[of True]
  by (simp add: allEntries_def demo_entries1 window_def) (simp add: demoOptions_def demo_act_full[unfolded demoOptions_def])

lemma demo_window_plain:
  "actOnAll demoEnv demoSchema (demoOptions 10 0 False)
     (window (demoOptions 10 0 False) (allEntries demoEnv [listing1, listing2]))
   = Inr [plainRecord 0 ''A'' ''Alice'', plainRecord 204 ''B'' ''Bob'', plainRecord 1389 ''C'' ''Carol'',
          plainRecord 4410 ''D'' ''Dave'', plainRecord 57 ''E'' ''Eve'']"
  using demo_integer(2)[of False]
  by (simp add: demo_all_entries window_def) (simp add: demoOptions_def demo_act_plain[unfolded demoOptions_def])

lemma demo_window_alice:
  "actOnAll demoEnv demoSchema (demoOptions 1 0 False)
     (window (demoOptions 1 0 False) (allEntries demoEnv [listing1]))
   = Inr [plainRecord 0 ''A'' ''Alice'']"
  using demo_integer(3)[of False]
  by (simp add: allEntries_def demo_entries1 window_def) (simp add: demoOptions_def demo_act_plain[unfolded demoOptions_def])

lemma demo_chain: "pageChain demoEnv [listing1, listing2]"
  by (simp add: demo_next1 demo_fetch)

lemma demo_run_full:
  "getAll 3 demoEnv demoScraper (Some (demoOptions 2 1 True))
   = Some (Inr [fullRecord 204 ''B'' ''Bob'', fullRecord 1389 ''C'' ''Carol''])"
proof -
  have "walkOutcome demoEnv demoSchema (demoOptions 2 1 True) [listing1, listing2] [] 0 0
      = Some (Inr [fullRecord 204 ''B'' ''Bob'', fullRecord 1389 ''C'' ''Carol''])"
    by (rule walkOutcome_limit_reached[OF demo_valid(1) demo_window_full]) (simp add: demoOptions_def)
  from getAll_forward[OF demo_valid(1) demo_integer(1) demo_schema demo_fetch(1) demo_chain this, of 3]
  show ?thesis by simp
qed

lemma demo_run_plain:
  "getAll 3 demoEnv demoScraper (Some (demoOptions 10 0 False))
   = Some (Inr [plainRecord 0 ''A'' ''Alice'', plainRecord 204 ''B'' ''Bob'', plainRecord 1389 ''C'' ''Carol'',
          plainRecord 4410 ''D'' ''Dave'', plainRecord 57 ''E'' ''Eve''])"
proof -
  have "walkOutcome demoEnv demoSchema (demoOptions 10 0 False) [listing1, listing2] [] 0 0
      = Some (Inr [plainRecord 0 ''A'' ''Alice'', plainRecord 204 ''B'' ''Bob'', plainRecord 1389 ''C'' ''Carol'',
          plainRecord 4410 ''D'' ''Dave'', plainRecord 57 ''E'' ''Eve''])"
    by (rule walkOutcome_exhausted[OF demo_valid(2) demo_window_plain]) (simp add: demo_next2)
  from getAll_forward[OF demo_valid(2) demo_integer(2) demo_schema demo_fetch(1) demo_chain this, of 3]
  show ?thesis by simp
qed

lemma demo_run_alice:
  "getAll 2 demoEnv demoScraper (Some (demoOptions 1 0 False)) = Some (Inr [plainRecord 0 ''A'' ''Alice''])"
proof -
  have ch: "pageChain demoEnv [listing1]" by simp
  have "walkOutcome demoEnv demoSchema (demoOptions 1 0 False) [listing1] [] 0 0
      = Some (Inr [plainRecord 0 ''A'' ''Alice''])"
    by (rule walkOutcome_limit_reached[OF demo_valid(3) demo_window_alice]) (simp add: demoOptions_def)
  from getAll_forward[OF demo_valid(3) demo_integer(3) demo_schema demo_fetch(1) ch this, of 2]
  show ?thesis by simp
qed

lemma demo_run_fraction:
  "getAll 2 demoEnv demoScraper (Some (demoOptions (3 / 2) 0 False))
   = Some (Inr [plainRecord 0 ''A'' ''Alice'', plainRecord 204 ''B'' ''Bob'', plainRecord 1389 ''C'' ''Carol''])"
proof -
  let ?o = "demoOptions (3 / 2) 0 False"
  have c: "cap ?o 0 = None" using demo_fraction[of False] by (simp add: cap_def)
  have k: "toSkip ?o 0 = 0" by (simp add: toSkip_def demoOptions_def)
  have a: "actOnAll demoEnv demoSchema ?o [memberLink ''A'' ''Alice'', memberLink ''B'' ''Bob'', memberLink ''C'' ''Carol'']
      = Inr [plainRecord 0 ''A'' ''Alice'', plainRecord 204 ''B'' ''Bob'', plainRecord 1389 ''C'' ''Carol'']"
    by (simp add: demo_act_plain)
  have f: "for_elements demoEnv demoSchema ?o (listingEntries demoEnv listing1) [] 0 0
      = Inr (Continue [plainRecord 0 ''A'' ''Alice'', plainRecord 204 ''B'' ''Bob'', plainRecord 1389 ''C'' ''Carol''] 3 3)"
    using a by (simp add: for_elements_window c k demo_entries1)
  have l: "(0 :: rat) < limit ?o" "\<not> (3 :: rat) < limit ?o" by (simp_all add: demoOptions_def)
  have "getAllClassic_while (Suc (Suc 0)) demoEnv demoSchema ?o listing1 True [] 0 0
      = Some (Inr [plainRecord 0 ''A'' ''Alice'', plainRecord 204 ''B'' ''Bob'', plainRecord 1389 ''C'' ''Carol''])"
    using f l by (simp add: while_step demo_next1 demo_fetch while_stop del: getAllClassic_while.simps)
  then have "getAllClassic 2 demoEnv demoSchema ?o
      = Some (Inr [plainRecord 0 ''A'' ''Alice'', plainRecord 204 ''B'' ''Bob'', plainRecord 1389 ''C'' ''Carol''])"
    using demo_fetch(1) by (simp add: getAllClassic_def fetchPage_def numeral_2_eq_2)
  then show ?thesis using getAll_valid_classic[OF demo_valid(5)[of False] demo_schema, where fuel = 2 and E = demoEnv] by simp
qed

lemma broken_entries:
  "listingEntries brokenEnv brokenListing =
     [memberLink ''B'' ''Bob'', memberLink ''C'' ''Carol'', Element ''a'' [(''class'', ''member'')] [Text ''Dave'']]"
  by (simp add: filter_defs demo_defs dom_defs)

lemma broken_next: "nextPageUrl brokenEnv brokenListing = Some ''list''"
  by (simp add: nextPageUrl_def demo_defs dom_defs)

lemma broken_fetch: "fetch brokenEnv (charactersUrl demoSchema) = Some brokenListing"
  by (simp add: brokenEnv_def demoSchema_def)

lemma broken_act:
  "actOnElement brokenEnv demoSchema (demoOptions l k False) (memberLink ''B'' ''Bob'') = Inr (plainRecord 204 ''B'' ''Bob'')"
  "actOnElement brokenEnv demoSchema (demoOptions l k False) (memberLink ''C'' ''Carol'') = Inr (plainRecord 1389 ''C'' ''Carol'')"
  by (simp_all add: act_defs demo_defs dom_defs)

lemma broken_malformed: "malformed (Element ''a'' [(''class'', ''member'')] [Text ''Dave''])"
  by (simp add: malformed_def)

lemma broken_no_url:
  "actOnElement brokenEnv demoSchema (demoOptions 5 0 False)
      (Element ''a'' [(''class'', ''member'')] [Text ''Dave'']) = Inl (MalformedEntryError ''No URL found'')"
  by (simp add: actOnElement_def)

lemma broken_all_entries:
  "allEntries brokenEnv [brokenListing] =
      [memberLink ''B'' ''Bob'', memberLink ''C'' ''Carol''] @ Element ''a'' [(''class'', ''member'')] [Text ''Dave''] # []"
  by (simp add: allEntries_def broken_entries)

lemma broken_before:
  "actOnAll brokenEnv demoSchema (demoOptions 5 0 False)
     (drop (nat \<lceil>offset (demoOptions 5 0 False)\<rceil>) [memberLink ''B'' ''Bob'', memberLink ''C'' ''Carol''])
   = Inr [plainRecord 204 ''B'' ''Bob'', plainRecord 1389 ''C'' ''Carol'']"
  by (simp add: demoOptions_def broken_act[unfolded demoOptions_def])

lemma broken_position:
  "nat \<lceil>offset (demoOptions 5 0 False)\<rceil> \<le> length [memberLink ''B'' ''Bob'', memberLink ''C'' ''Carol'']"
  "of_nat (length [memberLink ''B'' ''Bob'', memberLink ''C'' ''Carol''] - nat \<lceil>offset (demoOptions 5 0 False)\<rceil>)
     < limit (demoOptions 5 0 False)"
  by (simp_all add: demoOptions_def)

lemma broken_classic:
  "getAllClassic 2 brokenEnv demoSchema (demoOptions 5 0 False) = Some (Inl (MalformedEntryError ''No URL found''))"
proof -
  have ch: "pageChain brokenEnv [brokenListing]" by simp
  have "getAllClassic_while 2 brokenEnv demoSchema (demoOptions 5 0 False) brokenListing True [] 0 0
      = Some (Inl (MalformedEntryError ''No URL found''))"
    by (rule while_error[OF ch broken_all_entries _ _ _ broken_no_url])
       (simp_all add: toSkip_def demoOptions_def broken_act[unfolded demoOptions_def])
  then show ?thesis using broken_fetch by (simp add: getAllClassic_def fetchPage_def)
qed

lemma broken_run: "getAll 2 brokenEnv demoScraper (Some (demoOptions 5 0 False)) = Some (Inr [])"
  using broken_classic getAll_valid_classic[OF demo_valid(4)[of False] demo_schema, where fuel = 2 and E = brokenEnv] by simp

lemma broken_chain:
  "pageChain brokenEnv (brokenListing # pages) \<Longrightarrow> last (brokenListing # pages) = brokenListing"
proof (induction pages)
  case Nil
  then show ?case by simp
next
  case (Cons p ps)
  have f: "fetch brokenEnv ''list'' = Some brokenListing" by (simp add: brokenEnv_def)
  from Cons.prems have "p = brokenListing" by (simp add: broken_next f)
  then show ?case using Cons by (simp add: broken_next f)
qed

lemma broken_never_exhausted: "\<not> (\<exists>pages. exhausted brokenEnv (brokenListing # pages))"
  using broken_chain by (auto simp: exhausted_def broken_next)

lemma demo_members:
  "getElementsByClassName listing1 (listCharactersElement_value (allCharactersPage_classic demoEnv)) =
     [memberLink ''Cat'' ''CATEGORY:Gods'', memberLink ''A'' ''Alice'', memberLink ''B'' ''Bob'',
      memberLink ''C'' ''Carol'']"
  by (simp add: demo_defs dom_defs)

lemma demo_filter:
  "filterBannedElement demoEnv [memberLink ''Cat'' ''CATEGORY:Gods'', memberLink ''A'' ''Alice'']
     [''Category:''] = [memberLink ''A'' ''Alice'']"
  by (simp add: filter_defs demo_defs)

lemma demo_lowering: "asciiLowering demoEnv"
  by (simp add: asciiLowering_def demoEnv_def)

lemma demo_ascii:
  "list_all (\<lambda>e. isAscii (textContent e)) [memberLink ''Cat'' ''CATEGORY:Gods'', memberLink ''A'' ''Alice'']"
  "list_all isAscii [''Category:'']"
  by (simp_all add: isAscii_def memberLink_def)

lemma demo_parse:
  "parseCharacterPage demoEnv demoSchema (characterPage ''204'') (demoOptions 2 1 True)
     = Inr [(''age'', StringValue ''42''), (''images'', ImageList [''a.png''])]"
  by (simp add: act_defs demo_defs dom_defs)

lemma demo_parse_less:
  "parseCharacterPage demoEnv (demoSchema\<lparr>dataSource := [(''age'', ''age'')] @ [(''images'', ''thumb'')]\<rparr>)
     (characterPage ''204'') (demoOptions 2 1 True)
     = Inr [(''age'', StringValue ''42''), (''images'', ImageList [''a.png''])]"
  by (simp add: act_defs demo_defs dom_defs)

lemma demo_noValue: "noValue (characterPage ''204'') ''kanji''" "plainLocator ''kanji''"
  by (simp_all add: noValue_def demo_defs dom_defs)

lemma empty_parse:
  "parseCharacterPage demoEnv gallerySchema emptyPage (demoOptions 1 0 True) = Inr [(''images'', ImageList [])]"
  by (simp add: act_defs demo_defs dom_defs gallerySchema_def emptyPage_def)

lemma empty_noValue: "noValue emptyPage ''thumb''" "plainLocator ''thumb''"
  "getElementsByClassName emptyPage ''thumb'' = []"
  by (simp_all add: noValue_def emptyPage_def dom_defs)

lemma quote_parse:
  "parseCharacterPage demoEnv quoteSchema (characterPage ''204'') (demoOptions 1 0 True)
     = Inl (SyntaxError quoteLocator)"
  by (simp add: act_defs demo_defs dom_defs quoteSchema_def quoteLocator_def)

lemma quote_noValue: "noValue (characterPage ''204'') quoteLocator" "\<not> plainLocator quoteLocator"
  by (simp_all add: noValue_def demo_defs dom_defs quoteLocator_def)

lemma gallery_parse:
  "parseCharacterPage demoEnv gallerySchema galleryPage (demoOptions 1 0 True)
     = Inr [(''images'', StringValue ''Gallery'')]"
  by (simp add: act_defs demo_defs dom_defs gallerySchema_def galleryPage_def)

lemma gallery_query:
  "querySelector demoEnv galleryPage ''thumb'' = Inr (Some (Element ''div'' [(''data-source'', ''thumb'')]
        [Element ''div'' [(''class'', ''pi-data-value'')] [Text ''Gallery'']]))"
  by (simp add: galleryPage_def dom_defs)

lemma gallery_images:
  "getElementsByClassName galleryPage ''thumb'' = [Element ''img'' [(''class'', ''thumb''), (''src'', ''a.png'')] []]"
  by (simp add: galleryPage_def dom_defs)

lemma gallery_value:
  "getElementsByClassName_in (quirksMode galleryPage) (Element ''div'' [(''data-source'', ''thumb'')]
        [Element ''div'' [(''class'', ''pi-data-value'')] [Text ''Gallery'']]) ''pi-data-value''
      = Element ''div'' [(''class'', ''pi-data-value'')] [Text ''Gallery''] # []"
  by (simp add: galleryPage_def dom_defs)

lemma demo_alice_scripts:
  "map (\<lambda>sc. (str_includes (textContent sc) ''pageId'', matchPageId (textContent sc)))
     (getElementsByTagName alicePage ''script'') = [(True, None), (True, Some ''117'')]"
  by (simp add: alicePage_def infobox_def dom_defs pageIdKey_def isDigit_def)

lemma demo_run_noId:
  "getAll 2 demoEnv demoScraper (Some noIdOptions)
     = Some (Inr [\<lparr>r_id = None, r_url = ''A'', r_name = ''Alice'', r_data = None\<rparr>])"
proof -
  have v: "validOptions noIdOptions" by (simp add: validOptions_def noIdOptions_def)
  have i: "isInteger (limit noIdOptions)" by (simp add: isInteger_def noIdOptions_def)
  have ch: "pageChain demoEnv [listing1]" by simp
  have a: "actOnElement demoEnv demoSchema noIdOptions (memberLink ''A'' ''Alice'')
      = Inr \<lparr>r_id = None, r_url = ''A'', r_name = ''Alice'', r_data = None\<rparr>"
    by (simp add: act_defs demo_defs dom_defs noIdOptions_def)
  have w: "actOnAll demoEnv demoSchema noIdOptions
      (window noIdOptions (allEntries demoEnv [listing1]))
      = Inr [\<lparr>r_id = None, r_url = ''A'', r_name = ''Alice'', r_data = None\<rparr>]"
    using a i by (simp add: allEntries_def demo_entries1 window_def) (simp add: noIdOptions_def)
  have "walkOutcome demoEnv demoSchema noIdOptions [listing1] [] 0 0
      = Some (Inr [\<lparr>r_id = None, r_url = ''A'', r_name = ''Alice'', r_data = None\<rparr>])"
    by (rule walkOutcome_limit_reached[OF v w]) (simp add: noIdOptions_def)
  from getAll_forward[OF v i demo_schema demo_fetch(1) ch this, of 2] show ?thesis by simp
qed

section \<open>Option checking and construction\<close>

text \<open>
  C1. Options with \<open>limit < 1\<close>, \<open>offset < 0\<close> or \<open>offset > limit\<close> are rejected before
  anything is fetched: the check throws, whatever the environment is and with no fuel
  at all. The error does not reach the caller, though: the \<^verbatim>\<open>throw\<close> statements stand
  inside the \<^verbatim>\<open>try\<close> block, the \<^verbatim>\<open>catch\<close> logs the error and \<^verbatim>\<open>getAll\<close> returns the empty
  array.
\<close>

theorem getAll_invalid_options:
  assumes "limit opts < 1 \<or> offset opts < 0 \<or> offset opts > limit opts"
  shows "(\<exists>msg. getAll_try fuel E this opts = Some (Inl (InvalidOptionsError msg)))
       \<and> getAll fuel E this (Some opts) = Some (Inr [])"
  using assms by (auto simp: getAll_def getAll_try_def)

theorem getAll_invalid_options_witness:
  "limit (demoOptions 0 0 False) < 1
   \<and> getAll_try 0 demoEnv demoScraper (demoOptions 0 0 False)
       = Some (Inl (InvalidOptionsError ''Limit must be greater than 0''))
   \<and> getAll 0 demoEnv demoScraper (Some (demoOptions 0 0 False)) = Some (Inr [])"
proof -
  have h: "limit (demoOptions 0 0 False) < 1" by (simp add: demoOptions_def)
  have "getAll 0 demoEnv demoScraper (Some (demoOptions 0 0 False)) = Some (Inr [])"
    using getAll_invalid_options[of "demoOptions 0 0 False" 0 demoEnv demoScraper] h by blast
  then show ?thesis using h by (simp add: getAll_try_def)
qed

text \<open>
  C7. The constructor rejects a name only when it is empty. A non-empty name that the
  registry does not have passes \<^verbatim>\<open>isValidConstructor\<close>; the construction then fails in
  the registry lookup with the runtime's \<^verbatim>\<open>TypeError\<close>, not with the error for an
  invalid wiki name.
\<close>

theorem constructor_unknown_name:
  assumes "c_name c \<noteq> []" and "Schemas E (c_name c) = None"
  shows "isValidConstructor c
       \<and> constructor E c = Inl (TypeError ''Cannot read properties of undefined'')"
  using assms by (simp add: constructor_def isValidConstructor_def)

theorem constructor_unknown_name_witness:
  "c_name \<lparr>c_name = ''naruto'', c_language = None\<rparr> \<noteq> []
   \<and> Schemas demoEnv ''naruto'' = None
   \<and> constructor demoEnv \<lparr>c_name = ''naruto'', c_language = None\<rparr>
       = Inl (TypeError ''Cannot read properties of undefined'')"
proof -
  have h1: "c_name \<lparr>c_name = ''naruto'', c_language = None\<rparr> \<noteq> []" by simp
  have h2: "Schemas demoEnv (c_name \<lparr>c_name = ''naruto'', c_language = None\<rparr>) = None"
    by (simp add: demoEnv_def)
  show ?thesis using constructor_unknown_name[OF h1 h2] h1 h2 by simp
qed

section \<open>Limit, offset and order\<close>

text \<open>
  C2, amended. For valid options whose \<open>limit\<close> is an integer \<^verbatim>\<open>getAll\<close> returns at most
  \<open>limit\<close> records. It returns fewer than \<open>limit\<close> only if the listing was exhausted, or if
  an error was thrown in the \<^verbatim>\<open>try\<close> block (the \<^verbatim>\<open>catch\<close> then makes the result empty),
  or if the page format is not the classic one. And the walk stops at the limit: when
  the entries of the window that lie on the pages walked so far are as many as \<open>limit\<close>,
  these records are returned whatever follows them on the page or behind its pagination
  control. The options are checked by comparisons only, so a \<open>limit\<close> such as \<open>3/2\<close> is
  valid; the counter of the records never equals it, and a whole page of three records
  is returned.
\<close>

theorem getAll_at_most_limit:
  assumes "validOptions opts" and "isInteger (limit opts)"
  shows "(\<forall>rs. getAll fuel E this (Some opts) = Some (Inr rs) \<longrightarrow>
            of_nat (length rs) \<le> limit opts \<and>
            (of_nat (length rs) < limit opts \<longrightarrow>
               (\<exists>err. getAll_try fuel E this opts = Some (Inl err))
             \<or> (\<exists>s. priv_schema this = Some s \<and> pageFormat s \<noteq> Classic)
             \<or> (\<exists>s page pages. priv_schema this = Some s \<and> fetch E (charactersUrl s) = Some page
                   \<and> exhausted E (page # pages))))
       \<and> (\<forall>s page pages rs.
            priv_schema this = Some s \<and> pageFormat s = Classic
            \<and> fetch E (charactersUrl s) = Some page \<and> pageChain E (page # pages)
            \<and> actOnAll E s opts (window opts (allEntries E (page # pages))) = Inr rs
            \<and> of_nat (length rs) = limit opts \<and> length pages + 2 \<le> fuel \<longrightarrow>
            getAll fuel E this (Some opts) = Some (Inr rs))"
proof (intro conjI allI impI)
  fix rs assume run: "getAll fuel E this (Some opts) = Some (Inr rs)"
  from getAll_Inr[OF run] show "of_nat (length rs) \<le> limit opts"
  proof
    assume "rs = []" then show ?thesis using assms(1) by (simp add: validOptions_def)
  next
    assume "validOptions opts \<and> (\<exists>s. priv_schema this = Some s \<and> pageFormat s = Classic
            \<and> getAllClassic fuel E s opts = Some (Inr rs))"
    then obtain s where "getAllClassic fuel E s opts = Some (Inr rs)" by blast
    from getAllClassic_Inr[OF this assms(1)] obtain page pages where
      "actOnAll E s opts (window opts (allEntries E (page # pages))) = Inr rs" by blast
    from actOnAll_length[OF this] length_window[OF assms] show ?thesis by simp
  qed
next
  fix rs assume run: "getAll fuel E this (Some opts) = Some (Inr rs)"
    and few: "of_nat (length rs) < limit opts"
  show "(\<exists>err. getAll_try fuel E this opts = Some (Inl err))
      \<or> (\<exists>s. priv_schema this = Some s \<and> pageFormat s \<noteq> Classic)
      \<or> (\<exists>s page pages. priv_schema this = Some s \<and> fetch E (charactersUrl s) = Some page
            \<and> exhausted E (page # pages))"
  proof (cases "getAll_try fuel E this opts")
    case None
    then show ?thesis using run by (simp add: getAll_def)
  next
    case (Some res)
    show ?thesis
    proof (cases res)
      case (Inl err)
      then show ?thesis using Some by blast
    next
      case (Inr rs')
      then have rs': "rs' = rs" using run Some by (simp add: getAll_def)
      show ?thesis
      proof (cases "priv_schema this")
        case None
        then show ?thesis using Some Inr assms(1) by (simp add: getAll_try_def validOptions_def)
      next
        case s: (Some s)
        show ?thesis
        proof (cases "pageFormat s = Classic")
          case False
          then show ?thesis using s by blast
        next
          case True
          then have "getAllClassic fuel E s opts = Some (Inr rs)"
            using Some Inr rs' s assms(1) by (simp add: getAll_try_def validOptions_def)
          from getAllClassic_Inr[OF this assms(1)] few assms(2) obtain page pages where
            "fetch E (charactersUrl s) = Some page" "pageChain E (page # pages)"
            "nextPageUrl E (last (page # pages)) = None" by blast
          then have "exhausted E (page # pages)" by (simp add: exhausted_def)
          then show ?thesis using s \<open>fetch E (charactersUrl s) = Some page\<close> by blast
        qed
      qed
    qed
  qed
next
  fix s page pages rs
  assume h: "priv_schema this = Some s \<and> pageFormat s = Classic
            \<and> fetch E (charactersUrl s) = Some page \<and> pageChain E (page # pages)
            \<and> actOnAll E s opts (window opts (allEntries E (page # pages))) = Inr rs
            \<and> of_nat (length rs) = limit opts \<and> length pages + 2 \<le> fuel"
  then have "walkOutcome E s opts (page # pages) [] 0 0 = Some (Inr rs)"
    using walkOutcome_limit_reached[OF assms(1)] by blast
  from getAll_forward[OF assms _ _ _ _ this] h
  show "getAll fuel E this (Some opts) = Some (Inr rs)" by simp
qed

theorem getAll_at_most_limit_witness:
  "validOptions (demoOptions 2 1 True) \<and> isInteger (limit (demoOptions 2 1 True))
   \<and> priv_schema demoScraper = Some demoSchema \<and> pageFormat demoSchema = Classic
   \<and> fetch demoEnv (charactersUrl demoSchema) = Some listing1 \<and> pageChain demoEnv [listing1]
   \<and> actOnAll demoEnv demoSchema (demoOptions 2 1 True)
        (window (demoOptions 2 1 True) (allEntries demoEnv [listing1]))
      = Inr [fullRecord 204 ''B'' ''Bob'', fullRecord 1389 ''C'' ''Carol'']
   \<and> getAll 2 demoEnv demoScraper (Some (demoOptions 2 1 True))
      = Some (Inr [fullRecord 204 ''B'' ''Bob'', fullRecord 1389 ''C'' ''Carol''])
   \<and> of_nat (length [fullRecord 204 ''B'' ''Bob'', fullRecord 1389 ''C'' ''Carol'']) \<le> limit (demoOptions 2 1 True)
   \<and> validOptions (demoOptions 10 0 False) \<and> isInteger (limit (demoOptions 10 0 False))
   \<and> getAll 3 demoEnv demoScraper (Some (demoOptions 10 0 False))
      = Some (Inr [plainRecord 0 ''A'' ''Alice'', plainRecord 204 ''B'' ''Bob'', plainRecord 1389 ''C'' ''Carol'',
          plainRecord 4410 ''D'' ''Dave'', plainRecord 57 ''E'' ''Eve''])
   \<and> of_nat (length [plainRecord 0 ''A'' ''Alice'', plainRecord 204 ''B'' ''Bob'', plainRecord 1389 ''C'' ''Carol'',
          plainRecord 4410 ''D'' ''Dave'', plainRecord 57 ''E'' ''Eve'']) < limit (demoOptions 10 0 False)
   \<and> exhausted demoEnv [listing1, listing2]"
proof -
  let ?bc = "[fullRecord 204 ''B'' ''Bob'', fullRecord 1389 ''C'' ''Carol'']"
  note t = getAll_at_most_limit[OF demo_valid(1)[of True] demo_integer(1)[of True], of 2 demoEnv demoScraper]
  have len: "of_nat (length ?bc) = limit (demoOptions 2 1 True)" by (simp add: demoOptions_def)
  have ch: "pageChain demoEnv [listing1]" by simp
  have run: "getAll 2 demoEnv demoScraper (Some (demoOptions 2 1 True)) = Some (Inr ?bc)"
  proof -
    have "priv_schema demoScraper = Some demoSchema \<and> pageFormat demoSchema = Classic
        \<and> fetch demoEnv (charactersUrl demoSchema) = Some listing1 \<and> pageChain demoEnv (listing1 # [])
        \<and> actOnAll demoEnv demoSchema (demoOptions 2 1 True)
             (window (demoOptions 2 1 True) (allEntries demoEnv (listing1 # []))) = Inr ?bc
        \<and> of_nat (length ?bc) = limit (demoOptions 2 1 True) \<and> length ([] :: document list) + 2 \<le> 2"
      using demo_schema demo_fetch(1) ch demo_window_full1 len by simp
    with conjunct2[OF t] show ?thesis by blast
  qed
  have bound: "of_nat (length ?bc) \<le> limit (demoOptions 2 1 True)"
    using conjunct1[OF t, rule_format, OF run] by blast
  have ex: "exhausted demoEnv [listing1, listing2]"
    by (simp add: exhausted_def demo_next1 demo_next2 demo_fetch)
  have few: "of_nat (length [plainRecord 0 ''A'' ''Alice'', plainRecord 204 ''B'' ''Bob'', plainRecord 1389 ''C'' ''Carol'',
          plainRecord 4410 ''D'' ''Dave'', plainRecord 57 ''E'' ''Eve'']) < limit (demoOptions 10 0 False)"
    by (simp add: demoOptions_def)
  show ?thesis
    using demo_valid(1,2) demo_integer(1,2) demo_schema demo_fetch(1) ch demo_window_full1 run bound
      demo_run_plain ex few
    by blast
qed

theorem getAll_fewer_counterexample:
  "validOptions (demoOptions 5 0 False)
   \<and> getAll 2 brokenEnv demoScraper (Some (demoOptions 5 0 False)) = Some (Inr [])
   \<and> of_nat (length ([] :: IData list)) < limit (demoOptions 5 0 False)
   \<and> fetch brokenEnv (charactersUrl demoSchema) = Some brokenListing
   \<and> \<not> (\<exists>pages. exhausted brokenEnv (brokenListing # pages))
   \<and> validOptions (demoOptions (3 / 2) 0 False)
   \<and> getAll 2 demoEnv demoScraper (Some (demoOptions (3 / 2) 0 False))
       = Some (Inr [plainRecord 0 ''A'' ''Alice'', plainRecord 204 ''B'' ''Bob'', plainRecord 1389 ''C'' ''Carol''])
   \<and> limit (demoOptions (3 / 2) 0 False)
       < of_nat (length [plainRecord 0 ''A'' ''Alice'', plainRecord 204 ''B'' ''Bob'', plainRecord 1389 ''C'' ''Carol''])"
proof -
  have a: "of_nat (length ([] :: IData list)) < limit (demoOptions 5 0 False)"
    by (simp add: demoOptions_def)
  have b: "limit (demoOptions (3 / 2) 0 False)
       < of_nat (length [plainRecord 0 ''A'' ''Alice'', plainRecord 204 ''B'' ''Bob'', plainRecord 1389 ''C'' ''Carol''])"
    by (simp add: demoOptions_def)
  show ?thesis
    using demo_valid(4,5) broken_run broken_fetch broken_never_exhausted demo_run_fraction a b by blast
qed

text \<open>
  C3. What \<^verbatim>\<open>getAll\<close> returns is empty or stands for the filtered entries of the pages
  walked, the first \<open>offset\<close> of them dropped and at most \<open>limit\<close> taken, in pagination
  order and then document order: the address and the name of the \<open>i\<close>-th record are
  those of the \<open>i\<close>-th entry of that window. Conversely, when acting on the entries of
  the window succeeds and the limit is reached or the listing ends there, exactly these
  records are returned. With \<open>limit = 2\<close> and \<open>offset = 1\<close> over five entries these are the
  second and the third entry.
\<close>

theorem getAll_offset_order:
  "(\<forall>rs. getAll fuel E this (Some opts) = Some (Inr rs) \<longrightarrow>
      rs = [] \<or> (\<exists>s page pages. priv_schema this = Some s \<and> fetch E (charactersUrl s) = Some page
          \<and> pageChain E (page # pages)
          \<and> map (\<lambda>r. (Some (r_url r), r_name r)) rs
              = map (\<lambda>e. (getAttribute e ''href'', textContent e))
                  (window opts (allEntries E (page # pages)))))
   \<and> (\<forall>s page pages rs.
        validOptions opts \<and> priv_schema this = Some s \<and> pageFormat s = Classic
        \<and> fetch E (charactersUrl s) = Some page \<and> pageChain E (page # pages)
        \<and> actOnAll E s opts (window opts (allEntries E (page # pages))) = Inr rs
        \<and> (of_nat (length rs) = limit opts
             \<or> isInteger (limit opts) \<and> nextPageUrl E (last (page # pages)) = None)
        \<and> length pages + 2 \<le> fuel \<longrightarrow>
        getAll fuel E this (Some opts) = Some (Inr rs)
        \<and> map (\<lambda>r. (Some (r_url r), r_name r)) rs
            = map (\<lambda>e. (getAttribute e ''href'', textContent e))
                (window opts (allEntries E (page # pages))))
   \<and> (isInteger (limit opts) \<longrightarrow>
        window opts entries = take (nat \<lfloor>limit opts\<rfloor>) (drop (nat \<lceil>offset opts\<rceil>) entries))"
proof (intro conjI allI impI)
  fix rs assume "getAll fuel E this (Some opts) = Some (Inr rs)"
  from getAll_entries[OF this]
  show "rs = [] \<or> (\<exists>s page pages. priv_schema this = Some s \<and> fetch E (charactersUrl s) = Some page
          \<and> pageChain E (page # pages)
          \<and> map (\<lambda>r. (Some (r_url r), r_name r)) rs
              = map (\<lambda>e. (getAttribute e ''href'', textContent e))
                  (window opts (allEntries E (page # pages))))" .
next
  fix s page pages rs
  assume h: "validOptions opts \<and> priv_schema this = Some s \<and> pageFormat s = Classic
        \<and> fetch E (charactersUrl s) = Some page \<and> pageChain E (page # pages)
        \<and> actOnAll E s opts (window opts (allEntries E (page # pages))) = Inr rs
        \<and> (of_nat (length rs) = limit opts
             \<or> isInteger (limit opts) \<and> nextPageUrl E (last (page # pages)) = None)
        \<and> length pages + 2 \<le> fuel"
  then have v: "validOptions opts"
    and a: "actOnAll E s opts (window opts (allEntries E (page # pages))) = Inr rs"
    by simp_all
  have i: "isInteger (limit opts)" using h isInteger_of_nat[of "length rs"] by auto
  have "walkOutcome E s opts (page # pages) [] 0 0 = Some (Inr rs)"
    using h walkOutcome_limit_reached[OF v a] walkOutcome_exhausted[OF v a] by blast
  from getAll_forward[OF v i _ _ _ _ this] h
  show "getAll fuel E this (Some opts) = Some (Inr rs)" by simp
  from actOnAll_entries[OF a]
  show "map (\<lambda>r. (Some (r_url r), r_name r)) rs
            = map (\<lambda>e. (getAttribute e ''href'', textContent e))
                (window opts (allEntries E (page # pages)))" .
next
  assume "isInteger (limit opts)"
  then show "window opts entries = take (nat \<lfloor>limit opts\<rfloor>) (drop (nat \<lceil>offset opts\<rceil>) entries)"
    by (simp add: window_def)
qed

theorem getAll_offset_order_witness:
  "allEntries demoEnv [listing1, listing2] =
     [memberLink ''A'' ''Alice'', memberLink ''B'' ''Bob'', memberLink ''C'' ''Carol'',
      memberLink ''D'' ''Dave'', memberLink ''E'' ''Eve'']
   \<and> window (demoOptions 2 1 True) (allEntries demoEnv [listing1, listing2])
       = [memberLink ''B'' ''Bob'', memberLink ''C'' ''Carol'']
   \<and> getAll 3 demoEnv demoScraper (Some (demoOptions 2 1 True))
       = Some (Inr [fullRecord 204 ''B'' ''Bob'', fullRecord 1389 ''C'' ''Carol''])
   \<and> map (\<lambda>r. (Some (r_url r), r_name r)) [fullRecord 204 ''B'' ''Bob'', fullRecord 1389 ''C'' ''Carol'']
       = map (\<lambda>e. (getAttribute e ''href'', textContent e)) [memberLink ''B'' ''Bob'', memberLink ''C'' ''Carol'']"
proof -
  let ?bc = "[fullRecord 204 ''B'' ''Bob'', fullRecord 1389 ''C'' ''Carol'']"
  note t = getAll_offset_order[of 3 demoEnv demoScraper "demoOptions 2 1 True"
      "allEntries demoEnv [listing1, listing2]"]
  have w: "window (demoOptions 2 1 True) (allEntries demoEnv [listing1, listing2])
       = [memberLink ''B'' ''Bob'', memberLink ''C'' ''Carol'']"
    using conjunct2[OF conjunct2[OF t]] demo_integer(1)[of True]
    by (simp add: demo_all_entries) (simp add: demoOptions_def)
  have "validOptions (demoOptions 2 1 True) \<and> priv_schema demoScraper = Some demoSchema
        \<and> pageFormat demoSchema = Classic
        \<and> fetch demoEnv (charactersUrl demoSchema) = Some listing1 \<and> pageChain demoEnv (listing1 # [listing2])
        \<and> actOnAll demoEnv demoSchema (demoOptions 2 1 True)
             (window (demoOptions 2 1 True) (allEntries demoEnv (listing1 # [listing2]))) = Inr ?bc
        \<and> (of_nat (length ?bc) = limit (demoOptions 2 1 True)
             \<or> isInteger (limit (demoOptions 2 1 True)) \<and> nextPageUrl demoEnv (last (listing1 # [listing2])) = None)
        \<and> length [listing2] + 2 \<le> 3"
    using demo_valid(1) demo_schema demo_fetch(1) demo_chain demo_window_full
    by (simp add: demoOptions_def)
  with conjunct1[OF conjunct2[OF t]]
  have "getAll 3 demoEnv demoScraper (Some (demoOptions 2 1 True)) = Some (Inr ?bc)
      \<and> map (\<lambda>r. (Some (r_url r), r_name r)) ?bc
            = map (\<lambda>e. (getAttribute e ''href'', textContent e))
                (window (demoOptions 2 1 True) (allEntries demoEnv (listing1 # [listing2])))"
    by blast
  then show ?thesis using w demo_all_entries by simp
qed

section \<open>Errors during the walk\<close>

text \<open>
  C4. An entry at or past the offset threshold and before the limit, reached after the
  entries before it have been acted on without error, that has no \<^verbatim>\<open>href\<close> (or an empty
  one) or no text makes \<^verbatim>\<open>_getAllClassic\<close> throw the error for a malformed entry; the
  \<^verbatim>\<open>catch\<close> of \<^verbatim>\<open>getAll\<close> then returns the empty array, and the records accumulated
  before are lost.
\<close>

theorem malformed_entry_empties_run:
  assumes "validOptions opts" and "priv_schema this = Some s" and "pageFormat s = Classic"
    and "fetch E (charactersUrl s) = Some page" and "pageChain E (page # pages)"
    and "allEntries E (page # pages) = pre @ e # post" and "malformed e"
    and "nat \<lceil>offset opts\<rceil> \<le> length pre"
    and "of_nat (length pre - nat \<lceil>offset opts\<rceil>) < limit opts"
    and "actOnAll E s opts (drop (nat \<lceil>offset opts\<rceil>) pre) = Inr accumulated"
    and "length pages + 2 \<le> fuel"
  shows "(\<exists>msg. actOnElement E s opts e = Inl (MalformedEntryError msg)
            \<and> getAllClassic fuel E s opts = Some (Inl (MalformedEntryError msg)))
       \<and> getAll fuel E this (Some opts) = Some (Inr [])"
proof -
  from actOnElement_malformed[OF assms(7)] obtain msg where
    m: "actOnElement E s opts e = Inl (MalformedEntryError msg)" by blast
  have k: "toSkip opts 0 = nat \<lceil>offset opts\<rceil>" by (simp add: toSkip_def)
  have h3: "toSkip opts 0 \<le> length pre" using assms(8) by (simp add: k)
  have h4: "of_nat (0 + (length pre - toSkip opts 0)) < limit opts" using assms(8,9) by (simp add: k)
  have h5: "actOnAll E s opts (drop (toSkip opts 0) pre) = Inr accumulated" using assms(10) by (simp add: k)
  have "getAllClassic_while fuel E s opts page True [] 0 0 = Some (Inl (MalformedEntryError msg))"
    by (rule while_error[OF assms(5,6) h3 h4 h5 m assms(11)])
  then have c: "getAllClassic fuel E s opts = Some (Inl (MalformedEntryError msg))"
    using assms(4) by (simp add: getAllClassic_def fetchPage_def)
  then show ?thesis using m getAll_valid_classic[OF assms(1,2,3), of fuel E] by simp
qed

theorem malformed_entry_empties_run_witness:
  "malformed (Element ''a'' [(''class'', ''member'')] [Text ''Dave''])
   \<and> allEntries brokenEnv [brokenListing] =
       [memberLink ''B'' ''Bob'', memberLink ''C'' ''Carol''] @ Element ''a'' [(''class'', ''member'')] [Text ''Dave''] # []
   \<and> actOnAll brokenEnv demoSchema (demoOptions 5 0 False)
       (drop (nat \<lceil>offset (demoOptions 5 0 False)\<rceil>) [memberLink ''B'' ''Bob'', memberLink ''C'' ''Carol''])
      = Inr [plainRecord 204 ''B'' ''Bob'', plainRecord 1389 ''C'' ''Carol'']
   \<and> getAllClassic 3 brokenEnv demoSchema (demoOptions 5 0 False)
      = Some (Inl (MalformedEntryError ''No URL found''))
   \<and> getAll 3 brokenEnv demoScraper (Some (demoOptions 5 0 False)) = Some (Inr [])"
proof -
  have ch: "pageChain brokenEnv (brokenListing # [])" by simp
  have fu: "length ([] :: document list) + 2 \<le> 3" by simp
  note t = malformed_entry_empties_run[OF demo_valid(4)[of False] demo_schema broken_fetch ch
      broken_all_entries broken_malformed broken_position broken_before fu]
  from t broken_no_url have "getAllClassic 3 brokenEnv demoSchema (demoOptions 5 0 False)
      = Some (Inl (MalformedEntryError ''No URL found''))
    \<and> getAll 3 brokenEnv demoScraper (Some (demoOptions 5 0 False)) = Some (Inr [])"
    by auto
  then show ?thesis using broken_all_entries broken_malformed broken_before by simp
qed

section \<open>The fields of a record\<close>

text \<open>
  C5. Without \<^verbatim>\<open>recursive\<close> (given as false, or the options omitted) the \<^verbatim>\<open>data\<close> of
  every returned record is \<^verbatim>\<open>undefined\<close>, which is not the empty object.
\<close>

theorem not_recursive_data_absent:
  assumes "getAll fuel E this arg = Some (Inr rs)"
    and "\<not> recursive (case arg of None \<Rightarrow> defaultOptions | Some given \<Rightarrow> given)"
    and "r \<in> set rs"
  shows "r_data r = None \<and> r_data r \<noteq> Some []"
proof -
  let ?opts = "case arg of None \<Rightarrow> defaultOptions | Some given \<Rightarrow> given"
  have "getAll fuel E this (Some ?opts) = Some (Inr rs)"
    using assms(1) by (cases arg) (simp_all add: getAll_default)
  from getAll_records[OF this assms(3)] obtain s e where "actOnElement E s ?opts e = Inr r" by blast
  from actOnElement_not_recursive[OF this assms(2)] show ?thesis by simp
qed

theorem not_recursive_data_absent_witness:
  "getAll 3 demoEnv demoScraper (Some (demoOptions 10 0 False))
     = Some (Inr [plainRecord 0 ''A'' ''Alice'', plainRecord 204 ''B'' ''Bob'', plainRecord 1389 ''C'' ''Carol'',
          plainRecord 4410 ''D'' ''Dave'', plainRecord 57 ''E'' ''Eve''])
   \<and> \<not> recursive (demoOptions 10 0 False)
   \<and> r_data (plainRecord 1389 ''C'' ''Carol'') = None"
proof -
  have nr: "\<not> recursive (case Some (demoOptions 10 0 False) of None \<Rightarrow> defaultOptions | Some given \<Rightarrow> given)"
    by (simp add: demoOptions_def)
  have "r_data (plainRecord 1389 ''C'' ''Carol'') = None"
    using not_recursive_data_absent[OF demo_run_plain nr, of "plainRecord 1389 ''C'' ''Carol''"] by simp
  then show ?thesis using demo_run_plain nr by simp
qed

text \<open>
  C8. Without \<^verbatim>\<open>withId\<close> no returned record has an id. With it, the id is read from the
  first script of the character page whose text contains \<^verbatim>\<open>pageId\<close>, and from that script
  only: it is \<open>0\<close> when there is no such script or the pattern \<^verbatim>\<open>"pageId":<digits>\<close> matches
  nowhere in it, and otherwise the number of the digits of the first match in it (for
  numbers that a double holds exactly). So a page whose first such script mentions
  \<^verbatim>\<open>pageId\<close> without the pattern gets the id \<open>0\<close>, although a later script of the page
  matches the pattern; the option is documented as giving the page id of the wiki.
\<close>

theorem record_id_first_script:
  assumes "getAll fuel E this (Some opts) = Some (Inr rs)" and "r \<in> set rs"
  shows "if withId opts
     then (\<exists>s href characterPage. priv_schema this = Some s
            \<and> URL_href E (r_url r) (s_url s) = Some href \<and> fetch E href = Some characterPage
            \<and> (case find (\<lambda>sc. sublist ''pageId'' (textContent sc))
                        (getElementsByTagName characterPage ''script'') of
                 None \<Rightarrow> r_id r = Some 0
               | Some sc \<Rightarrow>
                   (case matchPageId (textContent sc) of
                      None \<Rightarrow> r_id r = Some 0
                    | Some digits \<Rightarrow>
                        parseInt digits \<le> maxSafeInteger \<longrightarrow> r_id r = Some (parseInt digits))))
     else r_id r = None"
proof -
  from getAll_records[OF assms] obtain s e where s: "priv_schema this = Some s"
    and a: "actOnElement E s opts e = Inr r" by blast
  show ?thesis
  proof (cases "withId opts")
    case True
    with actOnElement_id[OF a] obtain href characterPage where
      u: "URL_href E (r_url r) (s_url s) = Some href" "fetch E href = Some characterPage" and
      i: "r_id r = Some (case find (\<lambda>sc. sublist ''pageId'' (textContent sc))
                                       (getElementsByTagName characterPage ''script'') of
                                None \<Rightarrow> 0 | Some sc \<Rightarrow> extractPageId (textContent sc))"
      by auto
    have "case find (\<lambda>sc. sublist ''pageId'' (textContent sc))
                        (getElementsByTagName characterPage ''script'') of
                 None \<Rightarrow> r_id r = Some 0
               | Some sc \<Rightarrow>
                   (case matchPageId (textContent sc) of
                      None \<Rightarrow> r_id r = Some 0
                    | Some digits \<Rightarrow>
                        parseInt digits \<le> maxSafeInteger \<longrightarrow> r_id r = Some (parseInt digits))"
      using i by (simp add: extractPageId_def split: option.splits)
    then show ?thesis using True s u by auto
  next
    case False
    with actOnElement_no_id[OF a] show ?thesis by simp
  qed
qed

theorem record_id_first_script_witness:
  "getAll 2 demoEnv demoScraper (Some (demoOptions 1 0 False)) = Some (Inr [plainRecord 0 ''A'' ''Alice''])
   \<and> plainRecord 0 ''A'' ''Alice'' \<in> set [plainRecord 0 ''A'' ''Alice'']
   \<and> withId (demoOptions 1 0 False)
   \<and> URL_href demoEnv (r_url (plainRecord 0 ''A'' ''Alice'')) (s_url demoSchema) = Some ''w/A''
   \<and> fetch demoEnv ''w/A'' = Some alicePage
   \<and> map (\<lambda>sc. (str_includes (textContent sc) ''pageId'', matchPageId (textContent sc)))
        (getElementsByTagName alicePage ''script'') = [(True, None), (True, Some ''117'')]
   \<and> parseInt ''117'' = 117
   \<and> r_id (plainRecord 0 ''A'' ''Alice'') = Some 0
   \<and> getAll 2 demoEnv demoScraper (Some noIdOptions)
      = Some (Inr [\<lparr>r_id = None, r_url = ''A'', r_name = ''Alice'', r_data = None\<rparr>])
   \<and> \<not> withId noIdOptions
   \<and> r_id \<lparr>r_id = None, r_url = ''A'', r_name = ''Alice'', r_data = None\<rparr> = None"
proof -
  have m: "plainRecord 0 ''A'' ''Alice'' \<in> set [plainRecord 0 ''A'' ''Alice'']" by simp
  have w: "withId (demoOptions 1 0 False)" by (simp add: demoOptions_def)
  have u: "URL_href demoEnv (r_url (plainRecord 0 ''A'' ''Alice'')) (s_url demoSchema) = Some ''w/A''"
    "fetch demoEnv ''w/A'' = Some alicePage"
    by (simp_all add: demoEnv_def demoSchema_def plainRecord_def)
  have f: "find (\<lambda>sc. sublist ''pageId'' (textContent sc)) (getElementsByTagName alicePage ''script'')
      = Some (Element ''script'' [] [Text ''var pageId;''])"
    by (simp add: alicePage_def infobox_def dom_defs str_includes_sublist[symmetric])
  have n: "matchPageId (textContent (Element ''script'' [] [Text ''var pageId;''])) = None"
    by (simp add: pageIdKey_def)
  have "\<exists>s href characterPage. priv_schema demoScraper = Some s
            \<and> URL_href demoEnv (r_url (plainRecord 0 ''A'' ''Alice'')) (s_url s) = Some href
            \<and> fetch demoEnv href = Some characterPage
            \<and> (case find (\<lambda>sc. sublist ''pageId'' (textContent sc))
                        (getElementsByTagName characterPage ''script'') of
                 None \<Rightarrow> r_id (plainRecord 0 ''A'' ''Alice'') = Some 0
               | Some sc \<Rightarrow>
                   (case matchPageId (textContent sc) of
                      None \<Rightarrow> r_id (plainRecord 0 ''A'' ''Alice'') = Some 0
                    | Some digits \<Rightarrow>
                        parseInt digits \<le> maxSafeInteger \<longrightarrow> r_id (plainRecord 0 ''A'' ''Alice'') = Some (parseInt digits)))"
    using record_id_first_script[OF demo_run_alice m] w by simp
  then have c1: "r_id (plainRecord 0 ''A'' ''Alice'') = Some 0"
    using demo_schema(1) u f n by auto
  have m2: "\<lparr>r_id = None, r_url = ''A'', r_name = ''Alice'', r_data = None\<rparr>
      \<in> set [\<lparr>r_id = None, r_url = ''A'', r_name = ''Alice'', r_data = None\<rparr>]" by simp
  have w2: "\<not> withId noIdOptions" by (simp add: noIdOptions_def)
  have c2: "r_id \<lparr>r_id = None, r_url = ''A'', r_name = ''Alice'', r_data = None\<rparr> = None"
    using record_id_first_script[OF demo_run_noId m2] w2 by simp
  have p: "parseInt ''117'' = 117" by (simp add: parseInt_def)
  show ?thesis using demo_run_alice m w u demo_alice_scripts p c1 demo_run_noId w2 c2 by blast
qed

section \<open>The ban list\<close>

text \<open>
  C9. The filter drops exactly the elements whose lower-cased text contains a lower-cased
  entry of the ban list. On ASCII texts and ban lists, where the lower-casing of the
  runtime lowers the letters \<open>A\<close> to \<open>Z\<close>, these are the elements whose text contains an
  entry of the ban list up to the case of the letters, whichever side has the capitals.
  The offset and the limit count the elements that are left: the records returned stand
  for the window of the filtered entries.
\<close>

theorem banned_entries_filtered:
  "filterBannedElement E elements bans
     = filter (\<lambda>e. \<not> (\<exists>b \<in> set bans. sublist (toLowerCase E b) (toLowerCase E (textContent e)))) elements
   \<and> (asciiLowering E \<and> list_all (\<lambda>e. isAscii (textContent e)) elements \<and> list_all isAscii bans
        \<longrightarrow> filterBannedElement E elements bans = filter (\<lambda>e. \<not> banned bans e) elements)
   \<and> (\<forall>rs. getAll fuel E this (Some opts) = Some (Inr rs) \<longrightarrow>
        rs = [] \<or> (\<exists>s page pages. priv_schema this = Some s \<and> fetch E (charactersUrl s) = Some page
          \<and> pageChain E (page # pages)
          \<and> map (\<lambda>r. (Some (r_url r), r_name r)) rs
              = map (\<lambda>e. (getAttribute e ''href'', textContent e))
                  (window opts
                     (concat (map (\<lambda>p. filterBannedElement E
                                (getElementsByClassName p
                                   (listCharactersElement_value (allCharactersPage_classic E)))
                                (banList (allCharactersPage_classic E)))
                        (page # pages))))))"
proof (intro conjI allI impI)
  show "filterBannedElement E elements bans
     = filter (\<lambda>e. \<not> (\<exists>b \<in> set bans. sublist (toLowerCase E b) (toLowerCase E (textContent e)))) elements"
    by (rule filterBannedElement_sublist)
next
  assume "asciiLowering E \<and> list_all (\<lambda>e. isAscii (textContent e)) elements \<and> list_all isAscii bans"
  then show "filterBannedElement E elements bans = filter (\<lambda>e. \<not> banned bans e) elements"
    using filterBannedElement_banned by blast
next
  fix rs assume "getAll fuel E this (Some opts) = Some (Inr rs)"
  from getAll_entries[OF this]
  show "rs = [] \<or> (\<exists>s page pages. priv_schema this = Some s \<and> fetch E (charactersUrl s) = Some page
          \<and> pageChain E (page # pages)
          \<and> map (\<lambda>r. (Some (r_url r), r_name r)) rs
              = map (\<lambda>e. (getAttribute e ''href'', textContent e))
                  (window opts
                     (concat (map (\<lambda>p. filterBannedElement E
                                (getElementsByClassName p
                                   (listCharactersElement_value (allCharactersPage_classic E)))
                                (banList (allCharactersPage_classic E)))
                        (page # pages)))))"
    unfolding allEntries_filtered .
qed

theorem banned_entries_filtered_witness:
  "getElementsByClassName listing1 (listCharactersElement_value (allCharactersPage_classic demoEnv)) =
     [memberLink ''Cat'' ''CATEGORY:Gods'', memberLink ''A'' ''Alice'', memberLink ''B'' ''Bob'',
      memberLink ''C'' ''Carol'']
   \<and> banList (allCharactersPage_classic demoEnv) = [''Category:'']
   \<and> asciiLowering demoEnv
   \<and> list_all (\<lambda>e. isAscii (textContent e)) [memberLink ''Cat'' ''CATEGORY:Gods'', memberLink ''A'' ''Alice'']
   \<and> list_all isAscii [''Category:'']
   \<and> filterBannedElement demoEnv [memberLink ''Cat'' ''CATEGORY:Gods'', memberLink ''A'' ''Alice'']
       [''Category:''] = [memberLink ''A'' ''Alice'']
   \<and> banned [''Category:''] (memberLink ''Cat'' ''CATEGORY:Gods'')
   \<and> \<not> banned [''Category:''] (memberLink ''A'' ''Alice'')
   \<and> getAll 3 demoEnv demoScraper (Some (demoOptions 2 1 True))
       = Some (Inr [fullRecord 204 ''B'' ''Bob'', fullRecord 1389 ''C'' ''Carol''])"
proof -
  have b: "banList (allCharactersPage_classic demoEnv) = [''Category:'']"
    by (simp add: demoEnv_def demoClassic_def)
  note t = banned_entries_filtered[of demoEnv "[memberLink ''Cat'' ''CATEGORY:Gods'', memberLink ''A'' ''Alice'']"
        "[''Category:'']"]
  have "filter (\<lambda>e. \<not> banned [''Category:''] e) [memberLink ''Cat'' ''CATEGORY:Gods'', memberLink ''A'' ''Alice'']
      = [memberLink ''A'' ''Alice'']"
    using conjunct1[OF conjunct2[OF t]] demo_lowering demo_ascii demo_filter by simp
  then have "banned [''Category:''] (memberLink ''Cat'' ''CATEGORY:Gods'')
      \<and> \<not> banned [''Category:''] (memberLink ''A'' ''Alice'')"
    by (auto simp: memberLink_def split: if_splits)
  then show ?thesis using demo_members b demo_lowering demo_ascii demo_filter demo_run_full by simp
qed

section \<open>Extracted fields\<close>

text \<open>
  C6, amended. Take a field whose locator is plain (no double quote, backslash or line
  break, so that the selector built from it is well formed) and finds nothing to read: no
  element with that data source, no data-value element in the first such element, or no
  text in that. If the field is not \<^verbatim>\<open>images\<close>, the extraction gives what it gives for
  the field map without this field, be it a mapping or an error of another field, and the
  mapping has no such key. If the field is \<^verbatim>\<open>images\<close>, its locator is not empty and no
  element has it as a class either, the key is bound to the empty list, and the rest is as
  for the field map without this field: the same error, or the same values under all other
  keys. The keys are taken to be distinct.
\<close>

theorem missing_field_absent:
  assumes "dataSource s = before @ (key, sourceKey) # after"
    and "plainLocator sourceKey" and "noValue page sourceKey"
    and "key \<noteq> ''images'' \<or> getElementsByClassName page sourceKey = []"
  shows "agreeOutside key (parseCharacterPage E s page opts)
            (parseCharacterPage E (s\<lparr>dataSource := before @ after\<rparr>) page opts)
       \<and> (key \<noteq> ''images'' \<longrightarrow>
            parseCharacterPage E s page opts
              = parseCharacterPage E (s\<lparr>dataSource := before @ after\<rparr>) page opts)
       \<and> (\<forall>d. key \<notin> fst ` set (before @ after) \<and> parseCharacterPage E s page opts = Inr d
             \<longrightarrow> map_of d key = (if key = ''images'' \<and> sourceKey \<noteq> [] then Some (ImageList []) else None))"
proof (cases "parseCharacterPage_for E page opts before []")
  case (Inl err)
  then show ?thesis using parse_step[OF assms, of E opts]
    by (simp add: parseCharacterPage_def parse_for_append)
next
  case (Inr d0)
  let ?d1 = "if key = ''images'' \<and> sourceKey \<noteq> [] then AList.update key (ImageList []) d0 else d0"
  have l: "parseCharacterPage E s page opts = parseCharacterPage_for E page opts after ?d1"
    using parse_step[OF assms, of E opts] Inr by simp
  have r: "parseCharacterPage E (s\<lparr>dataSource := before @ after\<rparr>) page opts
      = parseCharacterPage_for E page opts after d0"
    using Inr by (simp add: parseCharacterPage_def parse_for_append)
  have "\<forall>k. k \<noteq> key \<longrightarrow> map_of ?d1 k = map_of d0 k" by (simp add: update_conv')
  from parse_agree[OF this] have c1: "agreeOutside key (parseCharacterPage E s page opts)
            (parseCharacterPage E (s\<lparr>dataSource := before @ after\<rparr>) page opts)"
    unfolding l r .
  have c2: "parseCharacterPage E s page opts
              = parseCharacterPage E (s\<lparr>dataSource := before @ after\<rparr>) page opts"
    if "key \<noteq> ''images''"
    using that l r by simp
  have c3: "map_of d key = (if key = ''images'' \<and> sourceKey \<noteq> [] then Some (ImageList []) else None)"
    if "key \<notin> fst ` set (before @ after)" "parseCharacterPage E s page opts = Inr d" for d
  proof -
    have n: "key \<notin> fst ` set after" "key \<notin> fst ` set before" using that(1) by auto
    have "parseCharacterPage_for E page opts after ?d1 = Inr d" using that(2) l by simp
    from parse_preserves[OF this n(1)] have a: "map_of d key = map_of ?d1 key" .
    have "parseCharacterPage_for E page opts before [] = Inr d0" by (rule Inr)
    from parse_preserves[OF this n(2)] have "map_of d0 key = None" by simp
    then show ?thesis using a by (simp add: update_conv')
  qed
  from c1 c2 c3 show ?thesis by blast
qed

theorem missing_field_absent_witness:
  "dataSource demoSchema = [(''age'', ''age'')] @ (''kanji'', ''kanji'') # [(''images'', ''thumb'')]
   \<and> plainLocator ''kanji'' \<and> noValue (characterPage ''204'') ''kanji''
   \<and> ''kanji'' \<notin> fst ` set ([(''age'', ''age'')] @ [(''images'', ''thumb'')])
   \<and> parseCharacterPage demoEnv demoSchema (characterPage ''204'') (demoOptions 2 1 True)
       = Inr [(''age'', StringValue ''42''), (''images'', ImageList [''a.png''])]
   \<and> parseCharacterPage demoEnv (demoSchema\<lparr>dataSource := [(''age'', ''age'')] @ [(''images'', ''thumb'')]\<rparr>)
        (characterPage ''204'') (demoOptions 2 1 True)
       = Inr [(''age'', StringValue ''42''), (''images'', ImageList [''a.png''])]
   \<and> map_of [(''age'', StringValue ''42''), (''images'', ImageList [''a.png''])] ''kanji'' = None
   \<and> dataSource gallerySchema = [] @ (''images'', ''thumb'') # []
   \<and> plainLocator ''thumb'' \<and> noValue emptyPage ''thumb''
   \<and> getElementsByClassName emptyPage ''thumb'' = []
   \<and> parseCharacterPage demoEnv gallerySchema emptyPage (demoOptions 1 0 True) = Inr [(''images'', ImageList [])]
   \<and> parseCharacterPage demoEnv (gallerySchema\<lparr>dataSource := [] @ []\<rparr>) emptyPage (demoOptions 1 0 True) = Inr []
   \<and> map_of [(''images'', ImageList [])] ''images'' = Some (ImageList [])"
proof -
  have h1: "dataSource demoSchema = [(''age'', ''age'')] @ (''kanji'', ''kanji'') # [(''images'', ''thumb'')]"
    by (simp add: demoSchema_def)
  have h2: "''kanji'' \<noteq> ''images'' \<or> getElementsByClassName (characterPage ''204'') ''kanji'' = []" by simp
  have h3: "''kanji'' \<notin> fst ` set ([(''age'', ''age'')] @ [(''images'', ''thumb'')])" by simp
  note t = missing_field_absent[OF h1 demo_noValue(2,1) h2, of demoEnv "demoOptions 2 1 True"]
  have c1: "parseCharacterPage demoEnv (demoSchema\<lparr>dataSource := [(''age'', ''age'')] @ [(''images'', ''thumb'')]\<rparr>)
        (characterPage ''204'') (demoOptions 2 1 True)
       = Inr [(''age'', StringValue ''42''), (''images'', ImageList [''a.png''])]"
    using conjunct1[OF conjunct2[OF t]] demo_parse by simp
  have c2: "map_of [(''age'', StringValue ''42''), (''images'', ImageList [''a.png''])] ''kanji'' = None"
    using conjunct2[OF conjunct2[OF t]] h3 demo_parse by auto
  have g1: "dataSource gallerySchema = [] @ (''images'', ''thumb'') # []"
    by (simp add: gallerySchema_def)
  have g2: "''images'' \<noteq> ''images'' \<or> getElementsByClassName emptyPage ''thumb'' = []"
    using empty_noValue(3) by simp
  have g3: "''images'' \<notin> fst ` set ([] @ [] :: (string \<times> string) list)" by simp
  note u = missing_field_absent[OF g1 empty_noValue(2,1) g2, of demoEnv "demoOptions 1 0 True"]
  have c3: "map_of [(''images'', ImageList [])] ''images'' = Some (ImageList [])"
    using conjunct2[OF conjunct2[OF u]] g3 empty_parse by auto
  have c4: "parseCharacterPage demoEnv (gallerySchema\<lparr>dataSource := [] @ []\<rparr>) emptyPage (demoOptions 1 0 True) = Inr []"
    by (simp add: parseCharacterPage_def)
  show ?thesis using h1 demo_noValue h3 demo_parse c1 c2 g1 empty_noValue empty_parse c3 c4 by blast
qed

theorem images_key_present_counterexample:
  "dataSource gallerySchema = [(''images'', ''thumb'')]
   \<and> getElementsByClassName emptyPage ''thumb'' = []
   \<and> noValue emptyPage ''thumb''
   \<and> parseCharacterPage demoEnv gallerySchema emptyPage (demoOptions 1 0 True) = Inr [(''images'', ImageList [])]
   \<and> map_of [(''images'', ImageList [])] ''images'' \<noteq> None
   \<and> dataSource quoteSchema = [(''age'', ''age''), (''alias'', quoteLocator)]
   \<and> noValue (characterPage ''204'') quoteLocator
   \<and> \<not> plainLocator quoteLocator
   \<and> parseCharacterPage demoEnv quoteSchema (characterPage ''204'') (demoOptions 1 0 True)
       = Inl (SyntaxError quoteLocator)
   \<and> parseCharacterPage demoEnv (quoteSchema\<lparr>dataSource := [(''age'', ''age'')]\<rparr>) (characterPage ''204'')
        (demoOptions 1 0 True) = Inr [(''age'', StringValue ''42'')]"
proof -
  have a: "dataSource gallerySchema = [(''images'', ''thumb'')]" by (simp add: gallerySchema_def)
  have b: "dataSource quoteSchema = [(''age'', ''age''), (''alias'', quoteLocator)]"
    by (simp add: quoteSchema_def)
  have c: "parseCharacterPage demoEnv (quoteSchema\<lparr>dataSource := [(''age'', ''age'')]\<rparr>) (characterPage ''204'')
        (demoOptions 1 0 True) = Inr [(''age'', StringValue ''42'')]"
    by (simp add: act_defs demo_defs dom_defs quoteSchema_def)
  show ?thesis using a b c empty_noValue empty_parse quote_noValue quote_parse by simp
qed

text \<open>
  C10. The images are stored as a list, but the iteration goes on into the general case:
  when an element of the page carries the locator of the images as its data source and has
  a data-value text, the list is replaced by that text.
\<close>

theorem images_overwritten_by_text:
  assumes "dataSource s = before @ (''images'', sourceKey) # after" and "''images'' \<notin> fst ` set after"
    and "sourceKey \<noteq> []" and "querySelector E page sourceKey = Inr (Some element)"
    and "getElementsByClassName_in (quirksMode page) element ''pi-data-value'' = valueElement # others"
    and "textContent valueElement \<noteq> []"
    and "parseCharacterPage E s page opts = Inr d"
  shows "map_of d ''images'' = Some (StringValue (removeBrackets E (textContent valueElement)))"
proof -
  from assms(1,7) obtain d0 d1 where
    d1: "parseCharacterPage_for E page opts [(''images'', sourceKey)] d0 = Inr d1" and
    d: "parseCharacterPage_for E page opts after d1 = Inr d"
    using parse_for_append[of E page opts before "(''images'', sourceKey) # after" "[]"]
      parse_for_append[of E page opts "[(''images'', sourceKey)]" after]
    by (auto simp: parseCharacterPage_def split: sum.splits)
  have "map_of d1 ''images'' = Some (StringValue (removeBrackets E (textContent valueElement)))"
    using d1 assms(3,4,5,6)
    by (auto simp: dataValue_def Let_def update_conv' split: sum.splits)
  with parse_preserves[OF d assms(2)] show ?thesis by simp
qed

theorem images_overwritten_by_text_witness:
  "dataSource gallerySchema = [] @ (''images'', ''thumb'') # []
   \<and> getElementsByClassName galleryPage ''thumb'' = [Element ''img'' [(''class'', ''thumb''), (''src'', ''a.png'')] []]
   \<and> querySelector demoEnv galleryPage ''thumb'' = Inr (Some (Element ''div'' [(''data-source'', ''thumb'')]
        [Element ''div'' [(''class'', ''pi-data-value'')] [Text ''Gallery'']]))
   \<and> parseCharacterPage demoEnv gallerySchema galleryPage (demoOptions 1 0 True)
       = Inr [(''images'', StringValue ''Gallery'')]
   \<and> map_of [(''images'', StringValue ''Gallery'')] ''images''
       = Some (StringValue (removeBrackets demoEnv ''Gallery''))"
proof -
  have h1: "dataSource gallerySchema = [] @ (''images'', ''thumb'') # []"
    by (simp add: gallerySchema_def)
  have h2: "''images'' \<notin> fst ` set ([] :: (string \<times> string) list)" by simp
  have h3: "''thumb'' \<noteq> []" by simp
  have h6: "textContent (Element ''div'' [(''class'', ''pi-data-value'')] [Text ''Gallery'']) \<noteq> []" by simp
  have c: "map_of [(''images'', StringValue ''Gallery'')] ''images''
       = Some (StringValue (removeBrackets demoEnv ''Gallery''))"
    using images_overwritten_by_text[OF h1 h2 h3 gallery_query gallery_value h6 gallery_parse] by simp
  show ?thesis using h1 gallery_images gallery_query gallery_parse c by blast
qed

end
